theory Spec2Isabelle
  imports Main "HOL-Library.Word" "HOL-Library.Multiset"
begin

unbundle bit_operations_syntax

section \<open>The cache simulator of csim.c\<close>

text \<open>
  A shallow embedding of \<^verbatim>\<open>csim.c\<close>: the cache line, the two helper functions
  \<^verbatim>\<open>cache_lookup\<close> and \<open>update_lru_cntr\<close>, and the parts of \<^verbatim>\<open>main\<close> that set the
  cache up and replay the trace. What \<^verbatim>\<open>main\<close> prints is not modelled; the three
  counters it hands to \<^verbatim>\<open>printSummary\<close> are.
\<close>

subsection \<open>Data\<close>

text \<open>
  \<^verbatim>\<open>typedef struct { long long tag; short valid; short lru_cntr; } cache_line;\<close>
  The fields keep their widths, those of the x86-64 systems the simulator is written
  for: \<^verbatim>\<open>short\<close> has 16 bits, \<^verbatim>\<open>int\<close> 32 and \<^verbatim>\<open>long long\<close> 64. A \<^verbatim>\<open>short\<close> is
  read as a signed number with \<open>sint\<close> wherever C promotes it to \<^verbatim>\<open>int\<close> for a
  comparison, and an \<^verbatim>\<open>int\<close> stored into a \<^verbatim>\<open>short\<close> keeps its low 16 bits;
  \<open>valid\<close> is tested for being non-zero, as C's truth test does.
\<close>

record cache_line =
  tag :: "64 word"
  valid :: "16 word"
  lru_cntr :: "16 word"

text \<open>
  What can stop a run other than the end of the trace: the failed \<^verbatim>\<open>assert\<close> of
  \<^verbatim>\<open>cache_lookup\<close>, and behaviour the C standard leaves undefined (a shift by a
  count that is too large, the uninitialised \<^verbatim>\<open>lru_line\<close> of an empty set).
\<close>

datatype error = AssertionFailed | UndefinedBehaviour

text \<open>
  How \<^verbatim>\<open>main\<close> classifies an access, by what it prints: \<^verbatim>\<open>hit\<close>, \<^verbatim>\<open>miss\<close>, or
  \<^verbatim>\<open>miss\<close> followed by \<^verbatim>\<open>eviction\<close>.
\<close>

datatype outcome = Hit | MissNoEvict | MissWithEvict

subsection \<open>update_lru_cntr\<close>

text \<open>
  The loop over the \<open>assoc\<close> lines of the set. The array \<^verbatim>\<open>set[]\<close> and its length
  \<^verbatim>\<open>assoc\<close> travel together in the C code (every set is allocated with \<^verbatim>\<open>assoc\<close>
  lines and every call passes that same \<^verbatim>\<open>assoc\<close>); the model has the list, whose
  length is \<^verbatim>\<open>assoc\<close>. The argument is passed by value, so a line's new counter
  depends on its own old counter only. \<^verbatim>\<open>lru_cntr++\<close> on a \<^verbatim>\<open>short\<close> is the
  word addition of 1. (The C parameter \<^verbatim>\<open>set\<close> is called \<open>cset\<close> in the definitions
  below.)
\<close>

fun update_lru_cntr :: "cache_line list \<Rightarrow> 16 word \<Rightarrow> cache_line list" where
  "update_lru_cntr [] lru_cntr_accessed = []"
| "update_lru_cntr (l # ls) lru_cntr_accessed =
     (if sint (lru_cntr l) < sint lru_cntr_accessed then l\<lparr>lru_cntr := lru_cntr l + 1\<rparr>
      else if lru_cntr l = lru_cntr_accessed then l\<lparr>lru_cntr := 0\<rparr>
      else l) # update_lru_cntr ls lru_cntr_accessed"

subsection \<open>cache_lookup\<close>

text \<open>
  The first loop: the counter of the first valid line with a matching tag, if any.
\<close>

fun hit_scan :: "cache_line list \<Rightarrow> 64 word \<Rightarrow> 16 word option" where
  "hit_scan [] t = None"
| "hit_scan (l # ls) t =
     (if valid l \<noteq> 0 \<and> tag l = t then Some (lru_cntr l) else hit_scan ls t)"

text \<open>
  The second loop, from index \<open>i\<close> on, with the running \<^verbatim>\<open>max_lru_cntr\<close> and
  \<^verbatim>\<open>lru_line\<close> (a pointer into the set: here the index, \<open>None\<close> while it is
  uninitialised). \<open>Inl (i, c)\<close>: the loop returned at the empty line \<open>i\<close>, whose counter
  is \<open>c\<close>. \<open>Inr (m, p)\<close>: the loop ran to its end.
\<close>

fun slot_scan ::
  "cache_line list \<Rightarrow> nat \<Rightarrow> 16 word \<Rightarrow> nat option \<Rightarrow> (nat \<times> 16 word) + (16 word \<times> nat option)"
where
  "slot_scan [] i max_lru_cntr lru_line = Inr (max_lru_cntr, lru_line)"
| "slot_scan (l # ls) i max_lru_cntr lru_line =
     (if valid l = 0 then Inl (i, lru_cntr l)
      else if sint (lru_cntr l) > sint max_lru_cntr
        then slot_scan ls (Suc i) (lru_cntr l) (Some i)
      else slot_scan ls (Suc i) max_lru_cntr lru_line)"

text \<open>
  The result is the set with its counters updated, and the returned pointer: \<open>None\<close> for
  \<^verbatim>\<open>NULL\<close> (a hit), \<open>Some i\<close> for \<^verbatim>\<open>&set[i]\<close>. \<^verbatim>\<open>assoc-1\<close> is an \<^verbatim>\<open>int\<close>; the
  \<^verbatim>\<open>assert\<close> compares it with the promoted \<^verbatim>\<open>max_lru_cntr\<close>, and the call of
  \<open>update_lru_cntr\<close> converts it to \<^verbatim>\<open>short\<close>.
\<close>

definition cache_lookup ::
  "cache_line list \<Rightarrow> 64 word \<Rightarrow> error + (cache_line list \<times> nat option)"
where
  "cache_lookup cset t =
     (case hit_scan cset t of
        Some c \<Rightarrow> Inr (update_lru_cntr cset c, None)
      | None \<Rightarrow>
         (case slot_scan cset 0 (- 1) None of
            Inl (i, c) \<Rightarrow> Inr (update_lru_cntr cset c, Some i)
          | Inr (max_lru_cntr, lru_line) \<Rightarrow>
              if sint max_lru_cntr \<noteq> int (length cset) - 1 then Inl AssertionFailed
              else (case lru_line of
                      None \<Rightarrow> Inl UndefinedBehaviour
                    | Some i \<Rightarrow>
                        Inr (update_lru_cntr cset (word_of_int (int (length cset) - 1)), Some i))))"

subsection \<open>main: the address, one access, one trace entry, the whole trace\<close>

text \<open>
  Lines 103 and 104. \<^verbatim>\<open>address\<close> is a \<^verbatim>\<open>long long\<close>, so \<^verbatim>\<open>>>\<close> is the arithmetic
  shift; \<^verbatim>\<open>INDEX_MASK\<close> is the \<^verbatim>\<open>int\<close> \<^verbatim>\<open>(1 << s) - 1\<close>. \<open>s\<close> and \<open>b\<close> are the
  non-negative numbers the command line gave. \<^verbatim>\<open>1 << s\<close> overflows \<^verbatim>\<open>int\<close> from
  \<open>s = 31\<close> on and a shift of a 64-bit value by 64 or more is undefined: \<open>None\<close>.
\<close>

definition decode :: "nat \<Rightarrow> nat \<Rightarrow> 64 word \<Rightarrow> (64 word \<times> nat) option" where
  "decode s b address =
     (if s \<le> 30 \<and> s + b < 64
      then Some (signed_drop_bit (s + b) address,
                 unat (signed_drop_bit b address AND (push_bit s 1 - 1)))
      else None)"

text \<open>
  Lines 107 to 123 without the counters: the lookup, then the write through the
  returned pointer \<^verbatim>\<open>line_to_replace\<close>. The outcome is the branch taken: \<^verbatim>\<open>NULL\<close> is
  a hit, a valid line is evicted, an empty line is marked valid.
\<close>

definition main_place ::
  "cache_line list \<Rightarrow> 64 word \<Rightarrow> error + (cache_line list \<times> outcome)"
where
  "main_place cset t =
     (case cache_lookup cset t of
        Inl e \<Rightarrow> Inl e
      | Inr (set', None) \<Rightarrow> Inr (set', Hit)
      | Inr (set', Some i) \<Rightarrow>
          if valid (set' ! i) \<noteq> 0
          then Inr (set'[i := (set' ! i)\<lparr>tag := t\<rparr>], MissWithEvict)
          else Inr (set'[i := (set' ! i)\<lparr>valid := 1, tag := t\<rparr>], MissNoEvict))"

text \<open>
  The state of the replay: the array of sets and the three \<^verbatim>\<open>int\<close> counters.
  \<open>+ 1\<close> on them is the addition of the machine (C leaves the overflow of an
  \<^verbatim>\<open>int\<close> undefined; a counter gets there after \<open>2 ^ 31\<close> accesses). \<open>tally\<close> is the
  counting of lines 108 to 116 for the three outcomes.
\<close>

record sim =
  cache :: "cache_line list list"
  hits :: "32 word"
  misses :: "32 word"
  evictions :: "32 word"

definition tally :: "outcome \<Rightarrow> sim \<Rightarrow> sim" where
  "tally oc st =
     (case oc of
        Hit \<Rightarrow> st\<lparr>hits := hits st + 1\<rparr>
      | MissNoEvict \<Rightarrow> st\<lparr>misses := misses st + 1\<rparr>
      | MissWithEvict \<Rightarrow> st\<lparr>misses := misses st + 1, evictions := evictions st + 1\<rparr>)"

text \<open>The body of the \<^verbatim>\<open>while\<close> loop, lines 94 to 129, for one scanned entry.\<close>

definition main_step :: "nat \<Rightarrow> nat \<Rightarrow> sim \<Rightarrow> char \<Rightarrow> 64 word \<Rightarrow> error + sim" where
  "main_step s b st access_type address =
     (if access_type = CHR ''I'' then Inr st
      else
        (case decode s b address of
           None \<Rightarrow> Inl UndefinedBehaviour
         | Some (t, set_index) \<Rightarrow>
             if set_index \<ge> length (cache st) then Inl UndefinedBehaviour
             else
               (case main_place (cache st ! set_index) t of
                  Inl e \<Rightarrow> Inl e
                | Inr (set', oc) \<Rightarrow>
                    let st' = tally oc (st\<lparr>cache := (cache st)[set_index := set']\<rparr>)
                    in Inr (if access_type = CHR ''M'' then st'\<lparr>hits := hits st' + 1\<rparr>
                            else st'))))"

text \<open>
  The trace as the loop sees it: what each successive call of
  \<^verbatim>\<open>fscanf(tracefp, " %c %llx %*c %*d", &access_type, &address)\<close> delivers. \<open>Entry c a\<close>: the
  call returned 2, having stored the character \<open>c\<close> and the address \<open>a\<close>. \<open>NoMatch\<close>:
  it returned something else (0 or 1 when the input does not match, for instance where
  the address is not a hexadecimal number). At the end of the list the call returns
  \<^verbatim>\<open>EOF\<close>.
\<close>

datatype scanned = Entry char "64 word" | NoMatch

fun main_loop :: "nat \<Rightarrow> nat \<Rightarrow> sim \<Rightarrow> scanned list \<Rightarrow> error + sim" where
  "main_loop s b st [] = Inr st"
| "main_loop s b st (NoMatch # rest) = Inr st"
| "main_loop s b st (Entry access_type address # rest) =
     (case main_step s b st access_type address of
        Inl e \<Rightarrow> Inl e
      | Inr st' \<Rightarrow> main_loop s b st' rest)"

text \<open>
  Lines 68 to 91: \<open>2 ^ s\<close> sets of \<open>assoc\<close> lines, no line valid, line \<open>j\<close> with
  the counter \<open>j\<close>, the three counters at 0. \<^verbatim>\<open>malloc\<close> leaves the tags undefined:
  \<open>junk i j\<close> is whatever line \<open>j\<close> of set \<open>i\<close> holds (a tag is never read before
  the line is valid). \<^verbatim>\<open>lru_cntr = j\<close> converts the \<^verbatim>\<open>int\<close> \<open>j\<close> to \<^verbatim>\<open>short\<close>.
\<close>

definition init_set :: "(nat \<Rightarrow> 64 word) \<Rightarrow> nat \<Rightarrow> cache_line list" where
  "init_set junk assoc =
     map (\<lambda>j. \<lparr>tag = junk j, valid = 0, lru_cntr = word_of_int (int j)\<rparr>) [0..<assoc]"

definition main_init :: "(nat \<Rightarrow> nat \<Rightarrow> 64 word) \<Rightarrow> nat \<Rightarrow> nat \<Rightarrow> sim" where
  "main_init junk s assoc =
     \<lparr>cache = map (\<lambda>i. init_set (junk i) assoc) [0..<2 ^ s], hits = 0, misses = 0, evictions = 0\<rparr>"

subsection \<open>Notions of the specification\<close>

text \<open>The rank of a line: its counter, read as the signed number it is.\<close>

definition rank :: "cache_line \<Rightarrow> int" where
  "rank l = sint (lru_cntr l)"

text \<open>The ranks of a set of \<open>E\<close> lines are, as a multiset, the numbers \<open>0, ..., E - 1\<close>.\<close>

definition rank_inv :: "cache_line list \<Rightarrow> bool" where
  "rank_inv cset \<longleftrightarrow> mset (map rank cset) = mset (map int [0..<length cset])"

text \<open>The rank-promotion rule on one rank, for the former rank \<open>r0\<close> of the accessed line.\<close>

definition promote :: "int \<Rightarrow> int \<Rightarrow> int" where
  "promote r0 r = (if r < r0 then r + 1 else if r = r0 then 0 else r)"

text \<open>Every set of the cache has \<open>assoc\<close> lines, and its ranks satisfy the invariant.\<close>

definition sets_inv :: "nat \<Rightarrow> cache_line list list \<Rightarrow> bool" where
  "sets_inv assoc c \<longleftrightarrow> (\<forall>cset \<in> set c. length cset = assoc \<and> rank_inv cset)"

text \<open>A scanned entry of kind \<^verbatim>\<open>I\<close>.\<close>

fun is_instruction :: "scanned \<Rightarrow> bool" where
  "is_instruction (Entry access_type address) = (access_type = CHR ''I'')"
| "is_instruction NoMatch = False"

text \<open>
  The address decomposition in the words of the specification, for comparison with
  \<open>decode\<close>: \<open>(tag, set_index)\<close> with \<open>tag = address >> (s + b)\<close> and
  \<open>set_index = (address >> b) & ((1 << s) - 1)\<close> on the unsigned 64-bit address, where
  \<open>>>\<close> shifts zeros in.
\<close>

definition decode_spec :: "64 word \<Rightarrow> nat \<Rightarrow> nat \<Rightarrow> 64 word \<times> nat" where
  "decode_spec address s b =
     (drop_bit (s + b) address, unat (drop_bit b address AND (push_bit s 1 - 1)))"

text \<open>
  The successive accesses \<^verbatim>\<open>main\<close> makes to one set, for the tags in turn: the loop of
  \<^verbatim>\<open>main\<close> seen from a single set.
\<close>

fun accesses :: "cache_line list \<Rightarrow> 64 word list \<Rightarrow> error + cache_line list" where
  "accesses cset [] = Inr cset"
| "accesses cset (t # ts) =
     (case main_place cset t of Inl e \<Rightarrow> Inl e | Inr (set', oc) \<Rightarrow> accesses set' ts)"

text \<open>
  The tags \<open>T 0, ..., T E\<close> accessed cyclically, \<open>n\<close> accesses in all.
\<close>

definition cyclic :: "(nat \<Rightarrow> 64 word) \<Rightarrow> nat \<Rightarrow> nat \<Rightarrow> 64 word list" where
  "cyclic T E n = map (\<lambda>i. T (i mod Suc E)) [0..<n]"

text \<open>
  A set whose first \<open>k\<close> lines are valid and hold the tags \<open>T 0, ..., T (k - 1)\<close>, the
  other lines being empty: what \<open>k\<close> misses on an empty set leave.
\<close>

definition filled :: "(nat \<Rightarrow> 64 word) \<Rightarrow> nat \<Rightarrow> cache_line list \<Rightarrow> bool" where
  "filled T k cset \<longleftrightarrow>
     (\<forall>j < length cset. if j < k then valid (cset ! j) \<noteq> 0 \<and> tag (cset ! j) = T j
                          else valid (cset ! j) = 0)"

text \<open>
  The recency list of a set: \<open>lst\<close> holds the tags of the valid lines, the most recently
  accessed first. The valid line of rank \<open>r\<close> holds the tag \<open>lst ! r\<close>, and the empty
  lines have the ranks from \<open>length lst\<close> on.
\<close>

definition lru_rel :: "cache_line list \<Rightarrow> 64 word list \<Rightarrow> bool" where
  "lru_rel cset lst \<longleftrightarrow>
     rank_inv cset \<and>
     (\<forall>i < length cset.
        if valid (cset ! i) \<noteq> 0
        then rank (cset ! i) < int (length lst) \<and> lst ! nat (rank (cset ! i)) = tag (cset ! i)
        else int (length lst) \<le> rank (cset ! i))"

text \<open>
  The last \<open>E\<close> tags (all of them, while there are fewer) of the first \<open>n\<close> cyclic
  accesses, the latest first.
\<close>

definition recent :: "(nat \<Rightarrow> 64 word) \<Rightarrow> nat \<Rightarrow> nat \<Rightarrow> 64 word list" where
  "recent T E n = map (\<lambda>i. T ((n - Suc i) mod Suc E)) [0..<min n E]"

subsection \<open>Concrete inputs\<close>

text \<open>Freshly allocated memory that happens to hold zeros.\<close>

definition zero_junk :: "nat \<Rightarrow> nat \<Rightarrow> 64 word" where
  "zero_junk i j = 0"

text \<open>The trace of \<open>n\<close> loads from the addresses \<open>0, ..., n - 1\<close>.\<close>

definition distinct_loads :: "nat \<Rightarrow> scanned list" where
  "distinct_loads n = map (\<lambda>k. Entry CHR ''L'' (word_of_nat k)) [0..<n]"

section \<open>Properties\<close>

subsection \<open>Ranks and the promotion step\<close>

lemma rank_inv_iff:
  "rank_inv cset \<longleftrightarrow> distinct (map rank cset) \<and> set (map rank cset) = {0..<int (length cset)}"
proof -
  have d: "distinct (map int [0..<length cset])" by (simp add: distinct_map)
  have s: "set (map int [0..<length cset]) = {0..<int (length cset)}"
    by (simp add: image_int_atLeastLessThan)
  show ?thesis
    unfolding rank_inv_def
    using d s
    by (metis mset_eq_setD mset_eq_imp_distinct_iff set_eq_iff_mset_eq_distinct)
qed

lemma sint_succ: 
  assumes "sint (c :: 16 word) < sint (r :: 16 word)" 
  shows "sint (c + 1) = sint c + 1"
proof -
  have r: "sint r < 2 ^ 15" using sint_lt [of r] by simp
  have c: "- (2 ^ 15) \<le> sint c" using sint_ge [of c] by simp
  have "sint (c + 1) = signed_take_bit 15 (sint c + 1)"
    by (simp add: sint_word_ariths)
  also have "\<dots> = sint c + 1"
    using assms r c by (intro signed_take_bit_int_eq_self) auto
  finally show ?thesis .
qed

lemma sint_word_of_int16: "- 32768 \<le> x \<Longrightarrow> x < 32768 \<Longrightarrow> sint (word_of_int x :: 16 word) = x"
  by (simp add: sint_sbintrunc' signed_take_bit_int_eq_self)

lemma update_lru_cntr_map:
  "update_lru_cntr cset r = map (\<lambda>l. if sint (lru_cntr l) < sint r then l\<lparr>lru_cntr := lru_cntr l + 1\<rparr>
      else if lru_cntr l = r then l\<lparr>lru_cntr := 0\<rparr> else l) cset"
  by (induction cset) auto

lemma length_update_lru_cntr [simp]: "length (update_lru_cntr cset r) = length cset"
  by (simp add: update_lru_cntr_map)

lemma tag_update_lru_cntr [simp]:
  "i < length cset \<Longrightarrow> tag (update_lru_cntr cset r ! i) = tag (cset ! i)"
  by (simp add: update_lru_cntr_map)

lemma valid_update_lru_cntr [simp]:
  "i < length cset \<Longrightarrow> valid (update_lru_cntr cset r ! i) = valid (cset ! i)"
  by (simp add: update_lru_cntr_map)

lemma rank_update_lru_cntr:
  "i < length cset \<Longrightarrow> rank (update_lru_cntr cset r ! i) = promote (sint r) (rank (cset ! i))"
  by (auto simp: update_lru_cntr_map rank_def promote_def sint_succ signed_word_eqI)

lemma map_rank_update_lru_cntr:
  "map rank (update_lru_cntr cset r) = map (promote (sint r)) (map rank cset)"
  by (rule nth_equalityI) (simp_all add: rank_update_lru_cntr)

lemma promote_inj: "inj_on (promote r0) {0..<n}"
  by (auto simp: inj_on_def promote_def split: if_splits)

lemma promote_range:
  assumes "0 \<le> r0" "r0 < n"
  shows "promote r0 ` {0..<n} = {0..<n}"
proof -
  have sub: "promote r0 ` {0..<n} \<subseteq> {0..<n}"
    using assms by (auto simp: promote_def)
  have "card (promote r0 ` {0..<n}) = card {0..<n}"
    by (rule card_image) (rule promote_inj)
  with sub show ?thesis
    by (simp add: card_subset_eq)
qed

lemma rank_inv_update_lru_cntr:
  assumes "rank_inv cset" "0 \<le> sint r" "sint r < int (length cset)"
  shows "rank_inv (update_lru_cntr cset r)"
proof -
  from assms(1) have d: "distinct (map rank cset)"
    and s: "set (map rank cset) = {0..<int (length cset)}"
    by (simp_all add: rank_inv_iff)
  have "distinct (map (promote (sint r)) (map rank cset))"
    using d s promote_inj [of "sint r" "int (length cset)"] by (simp only: distinct_map)
  moreover have "set (map (promote (sint r)) (map rank cset)) = {0..<int (length cset)}"
    using promote_range [OF assms(2,3)] s by (simp only: set_map)
  ultimately show ?thesis
    by (simp add: rank_inv_iff map_rank_update_lru_cntr)
qed

lemma hit_scan_None:
  "hit_scan cset t = None \<longleftrightarrow> (\<forall>l \<in> set cset. \<not> (valid l \<noteq> 0 \<and> tag l = t))"
  by (induction cset) auto

lemma hit_scan_Some:
  "hit_scan cset t = Some c \<Longrightarrow>
     \<exists>i < length cset. valid (cset ! i) \<noteq> 0 \<and> tag (cset ! i) = t \<and> lru_cntr (cset ! i) = c"
proof (induction cset)
  case Nil
  then show ?case by simp
next
  case (Cons l ls)
  show ?case
  proof (cases "valid l \<noteq> 0 \<and> tag l = t")
    case True
    with Cons.prems have "lru_cntr l = c" by simp
    with True show ?thesis by (intro exI [of _ 0]) simp
  next
    case False
    with Cons obtain i where "i < length ls" "valid (ls ! i) \<noteq> 0" "tag (ls ! i) = t" "lru_cntr (ls ! i) = c"
      by auto
    then show ?thesis by (intro exI [of _ "Suc i"]) simp
  qed
qed

lemma slot_scan_Inl:
  "slot_scan ls i m p = Inl (k, c) \<Longrightarrow>
     \<exists>j < length ls. k = i + j \<and> valid (ls ! j) = 0 \<and> lru_cntr (ls ! j) = c
        \<and> (\<forall>j' < j. valid (ls ! j') \<noteq> 0)"
proof (induction ls arbitrary: i m p)
  case Nil
  then show ?case by simp
next
  case (Cons l ls)
  show ?case
  proof (cases "valid l = 0")
    case True
    with Cons.prems show ?thesis by (intro exI [of _ 0]) simp
  next
    case False
    with Cons.prems obtain m' p' where "slot_scan ls (Suc i) m' p' = Inl (k, c)"
      by (auto split: if_splits)
    from Cons.IH [OF this] obtain j where j: "j < length ls" "k = Suc i + j" "valid (ls ! j) = 0"
      "lru_cntr (ls ! j) = c" "\<forall>j' < j. valid (ls ! j') \<noteq> 0"
      by blast
    have "\<forall>j' < Suc j. valid ((l # ls) ! j') \<noteq> 0"
      using False j(5) by (auto simp: less_Suc_eq_0_disj)
    with j show ?thesis by (intro exI [of _ "Suc j"]) simp
  qed
qed

lemma slot_scan_invalid:
  "\<exists>l \<in> set ls. valid l = 0 \<Longrightarrow> \<exists>k c. slot_scan ls i m p = Inl (k, c)"
proof (induction ls arbitrary: i m p)
  case Nil
  then show ?case by simp
next
  case (Cons l ls)
  show ?case
  proof (cases "valid l = 0")
    case True
    then show ?thesis by simp
  next
    case False
    with Cons.prems have "\<exists>l \<in> set ls. valid l = 0" by auto
    from Cons.IH [OF this] False show ?thesis by simp
  qed
qed

lemma slot_scan_Inr:
  "\<forall>l \<in> set ls. valid l \<noteq> 0 \<Longrightarrow>
     \<exists>m' p'. slot_scan ls i m p = Inr (m', p') \<and> sint m \<le> sint m'
        \<and> (\<forall>l \<in> set ls. sint (lru_cntr l) \<le> sint m')
        \<and> ((m' = m \<and> p' = p) \<or> (\<exists>j < length ls. p' = Some (i + j) \<and> lru_cntr (ls ! j) = m'))"
proof (induction ls arbitrary: i m p)
  case Nil
  then show ?case by simp
next
  case (Cons l ls)
  then have v: "valid l \<noteq> 0" and vs: "\<forall>l \<in> set ls. valid l \<noteq> 0" by simp_all
  show ?case
  proof (cases "sint (lru_cntr l) > sint m")
    case True
    from Cons.IH [OF vs, of "Suc i" "lru_cntr l" "Some i"]
    obtain m' p' where r: "slot_scan ls (Suc i) (lru_cntr l) (Some i) = Inr (m', p')"
      "sint (lru_cntr l) \<le> sint m'" "\<forall>l \<in> set ls. sint (lru_cntr l) \<le> sint m'"
      "(m' = lru_cntr l \<and> p' = Some i) \<or> (\<exists>j < length ls. p' = Some (Suc i + j) \<and> lru_cntr (ls ! j) = m')"
      by blast
    from r(4) have "\<exists>j < length (l # ls). p' = Some (i + j) \<and> lru_cntr ((l # ls) ! j) = m'"
    proof
      assume "m' = lru_cntr l \<and> p' = Some i"
      then show ?thesis by (intro exI [of _ 0]) simp
    next
      assume "\<exists>j < length ls. p' = Some (Suc i + j) \<and> lru_cntr (ls ! j) = m'"
      then obtain j where "j < length ls" "p' = Some (Suc i + j)" "lru_cntr (ls ! j) = m'" by blast
      then show ?thesis by (intro exI [of _ "Suc j"]) simp
    qed
    with r True v show ?thesis by simp
  next
    case False
    from Cons.IH [OF vs, of "Suc i" m p]
    obtain m' p' where r: "slot_scan ls (Suc i) m p = Inr (m', p')"
      "sint m \<le> sint m'" "\<forall>l \<in> set ls. sint (lru_cntr l) \<le> sint m'"
      "(m' = m \<and> p' = p) \<or> (\<exists>j < length ls. p' = Some (Suc i + j) \<and> lru_cntr (ls ! j) = m')"
      by blast
    from r(4) have "(m' = m \<and> p' = p) \<or> (\<exists>j < length (l # ls). p' = Some (i + j) \<and> lru_cntr ((l # ls) ! j) = m')"
    proof
      assume "m' = m \<and> p' = p"
      then show ?thesis by simp
    next
      assume "\<exists>j < length ls. p' = Some (Suc i + j) \<and> lru_cntr (ls ! j) = m'"
      then obtain j where "j < length ls" "p' = Some (Suc i + j)" "lru_cntr (ls ! j) = m'" by blast
      then have "\<exists>j < length (l # ls). p' = Some (i + j) \<and> lru_cntr ((l # ls) ! j) = m'"
        by (intro exI [of _ "Suc j"]) simp
      then show ?thesis ..
    qed
    with r False v show ?thesis by simp
  qed
qed

lemma rank_inv_bounds:
  "rank_inv cset \<Longrightarrow> i < length cset \<Longrightarrow> 0 \<le> rank (cset ! i) \<and> rank (cset ! i) < int (length cset)"
proof -
  assume a: "rank_inv cset" "i < length cset"
  then have "rank (cset ! i) \<in> set (map rank cset)" by simp
  with a(1) show ?thesis by (simp only: rank_inv_iff) simp
qed

lemma rank_inv_inj:
  "rank_inv cset \<Longrightarrow> i < length cset \<Longrightarrow> j < length cset \<Longrightarrow>
     rank (cset ! i) = rank (cset ! j) \<Longrightarrow> i = j"
proof -
  assume a: "rank_inv cset" "i < length cset" "j < length cset" "rank (cset ! i) = rank (cset ! j)"
  from a(1) have "distinct (map rank cset)" by (simp add: rank_inv_iff)
  with a(2-4) show ?thesis by (auto simp: distinct_conv_nth)
qed

lemma rank_inv_surj:
  "rank_inv cset \<Longrightarrow> 0 \<le> r \<Longrightarrow> r < int (length cset) \<Longrightarrow> \<exists>i < length cset. rank (cset ! i) = r"
proof -
  assume a: "rank_inv cset" "0 \<le> r" "r < int (length cset)"
  then have "r \<in> set (map rank cset)" by (simp add: rank_inv_iff)
  then show ?thesis by (auto simp: in_set_conv_nth)
qed

lemma cache_lookup_hit:
  assumes "\<exists>l \<in> set cset. valid l \<noteq> 0 \<and> tag l = t"
  shows "\<exists>i < length cset. valid (cset ! i) \<noteq> 0 \<and> tag (cset ! i) = t
           \<and> cache_lookup cset t = Inr (update_lru_cntr cset (lru_cntr (cset ! i)), None)"
proof -
  from assms obtain c where c: "hit_scan cset t = Some c"
    using hit_scan_None [of cset t] by (cases "hit_scan cset t") auto
  from hit_scan_Some [OF c] c show ?thesis
    by (auto simp: cache_lookup_def)
qed

lemma cache_lookup_fill:
  assumes "\<not> (\<exists>l \<in> set cset. valid l \<noteq> 0 \<and> tag l = t)" "\<exists>l \<in> set cset. valid l = 0"
  shows "\<exists>k < length cset. valid (cset ! k) = 0 \<and> (\<forall>j < k. valid (cset ! j) \<noteq> 0)
           \<and> cache_lookup cset t = Inr (update_lru_cntr cset (lru_cntr (cset ! k)), Some k)"
proof -
  from assms(1) have h: "hit_scan cset t = None" by (simp add: hit_scan_None)
  from slot_scan_invalid [OF assms(2)] obtain k c where k: "slot_scan cset 0 (- 1) None = Inl (k, c)"
    by blast
  from slot_scan_Inl [OF k] h k show ?thesis
    by (auto simp: cache_lookup_def)
qed

lemma cache_lookup_evict:
  assumes "\<not> (\<exists>l \<in> set cset. valid l \<noteq> 0 \<and> tag l = t)" "\<forall>l \<in> set cset. valid l \<noteq> 0"
    and "rank_inv cset" "cset \<noteq> []"
  shows "\<exists>v < length cset. rank (cset ! v) = int (length cset) - 1
           \<and> slot_scan cset 0 (- 1) None = Inr (lru_cntr (cset ! v), Some v)
           \<and> cache_lookup cset t = Inr (update_lru_cntr cset (lru_cntr (cset ! v)), Some v)"
proof -
  from assms(1) have h: "hit_scan cset t = None" by (simp add: hit_scan_None)
  from slot_scan_Inr [OF assms(2), of 0 "- 1" None]
  obtain m' p' where r: "slot_scan cset 0 (- 1) None = Inr (m', p')"
    "\<forall>l \<in> set cset. sint (lru_cntr l) \<le> sint m'"
    "(m' = - 1 \<and> p' = None) \<or> (\<exists>j < length cset. p' = Some j \<and> lru_cntr (cset ! j) = m')"
    by auto
  from assms(4) have "0 \<le> int (length cset) - 1" "int (length cset) - 1 < int (length cset)"
    by (cases cset; simp)+
  from rank_inv_surj [OF assms(3) this] obtain w where w: "w < length cset"
    "rank (cset ! w) = int (length cset) - 1" by blast
  then have "cset ! w \<in> set cset" by simp
  with r(2) have le: "int (length cset) - 1 \<le> sint m'" using w(2) by (auto simp: rank_def)
  moreover have "0 < int (length cset)" using assms(4) by simp
  ultimately have "m' \<noteq> - 1" by auto
  with r(3) obtain v where v: "v < length cset" "p' = Some v" "lru_cntr (cset ! v) = m'" by blast
  from rank_inv_bounds [OF assms(3) v(1)] le v(3) have rv: "rank (cset ! v) = int (length cset) - 1"
    by (simp add: rank_def)
  have "word_of_int (sint (lru_cntr (cset ! v))) = lru_cntr (cset ! v)"
    by simp
  then have "word_of_int (int (length cset) - 1) = lru_cntr (cset ! v)"
    using rv by (simp only: rank_def)
  with h r(1) v rv show ?thesis
    by (auto simp: cache_lookup_def rank_def)
qed

lemma map_tag_update_lru_cntr [simp]: "map tag (update_lru_cntr cset r) = map tag cset"
  by (simp add: update_lru_cntr_map)

lemma map_valid_update_lru_cntr [simp]: "map valid (update_lru_cntr cset r) = map valid cset"
  by (simp add: update_lru_cntr_map)

lemma main_place_hit:
  assumes "\<exists>l \<in> set cset. valid l \<noteq> 0 \<and> tag l = t"
  shows "\<exists>i < length cset. valid (cset ! i) \<noteq> 0 \<and> tag (cset ! i) = t
           \<and> main_place cset t = Inr (update_lru_cntr cset (lru_cntr (cset ! i)), Hit)"
  using cache_lookup_hit [OF assms] by (auto simp: main_place_def)

lemma main_place_fill:
  assumes "\<not> (\<exists>l \<in> set cset. valid l \<noteq> 0 \<and> tag l = t)" "\<exists>l \<in> set cset. valid l = 0"
  shows "\<exists>k < length cset. valid (cset ! k) = 0 \<and> (\<forall>j < k. valid (cset ! j) \<noteq> 0)
           \<and> main_place cset t =
               Inr ((update_lru_cntr cset (lru_cntr (cset ! k)))
                      [k := (update_lru_cntr cset (lru_cntr (cset ! k)) ! k)\<lparr>valid := 1, tag := t\<rparr>],
                    MissNoEvict)"
proof -
  from cache_lookup_fill [OF assms] obtain k where k: "k < length cset" "valid (cset ! k) = 0"
    "\<forall>j < k. valid (cset ! j) \<noteq> 0"
    "cache_lookup cset t = Inr (update_lru_cntr cset (lru_cntr (cset ! k)), Some k)"
    by blast
  then have "main_place cset t =
               Inr ((update_lru_cntr cset (lru_cntr (cset ! k)))
                      [k := (update_lru_cntr cset (lru_cntr (cset ! k)) ! k)\<lparr>valid := 1, tag := t\<rparr>],
                    MissNoEvict)"
    by (simp add: main_place_def)
  with k(1-3) show ?thesis by blast
qed

lemma main_place_evict:
  assumes "\<not> (\<exists>l \<in> set cset. valid l \<noteq> 0 \<and> tag l = t)" "\<forall>l \<in> set cset. valid l \<noteq> 0"
    and "rank_inv cset" "cset \<noteq> []"
  shows "\<exists>v < length cset. rank (cset ! v) = int (length cset) - 1
           \<and> main_place cset t =
               Inr ((update_lru_cntr cset (lru_cntr (cset ! v)))
                      [v := (update_lru_cntr cset (lru_cntr (cset ! v)) ! v)\<lparr>tag := t\<rparr>],
                    MissWithEvict)"
proof -
  from cache_lookup_evict [OF assms] obtain v where v: "v < length cset"
    "rank (cset ! v) = int (length cset) - 1"
    "cache_lookup cset t = Inr (update_lru_cntr cset (lru_cntr (cset ! v)), Some v)"
    by blast
  from v(1) assms(2) have "valid (cset ! v) \<noteq> 0" by simp
  with v(1,3) have "main_place cset t =
               Inr ((update_lru_cntr cset (lru_cntr (cset ! v)))
                      [v := (update_lru_cntr cset (lru_cntr (cset ! v)) ! v)\<lparr>tag := t\<rparr>],
                    MissWithEvict)"
    by (simp add: main_place_def)
  with v(1,2) show ?thesis by blast
qed

text \<open>
  Claim C1. One access to a set whose ranks satisfy the invariant, for any associativity
  \<open>E \<ge> 1\<close>. If a valid line holds the tag, the outcome is \<open>Hit\<close> and no tag and no
  valid flag changes. Otherwise, if some line is not valid, the first such line in index
  order gets the tag and \<open>valid = 1\<close>, nothing else changes in tags and flags, and the
  outcome is \<open>MissNoEvict\<close>. Otherwise the line of rank \<open>E - 1\<close> gets the tag, the valid
  flags stay as they are, and the outcome is \<open>MissWithEvict\<close>.
\<close>

theorem set_access_cases:
  assumes "rank_inv cset" and "cset \<noteq> []"
  shows "((\<exists>l \<in> set cset. valid l \<noteq> 0 \<and> tag l = t) \<longrightarrow>
            (\<exists>set'. main_place cset t = Inr (set', Hit)
               \<and> map tag set' = map tag cset \<and> map valid set' = map valid cset))
       \<and> (\<not> (\<exists>l \<in> set cset. valid l \<noteq> 0 \<and> tag l = t) \<and> (\<exists>l \<in> set cset. valid l = 0) \<longrightarrow>
            (\<exists>set' k. main_place cset t = Inr (set', MissNoEvict)
               \<and> k < length cset \<and> valid (cset ! k) = 0 \<and> (\<forall>j < k. valid (cset ! j) \<noteq> 0)
               \<and> map tag set' = (map tag cset)[k := t]
               \<and> map valid set' = (map valid cset)[k := 1]))
       \<and> (\<not> (\<exists>l \<in> set cset. valid l \<noteq> 0 \<and> tag l = t) \<and> (\<forall>l \<in> set cset. valid l \<noteq> 0) \<longrightarrow>
            (\<exists>set' v. main_place cset t = Inr (set', MissWithEvict)
               \<and> v < length cset \<and> rank (cset ! v) = int (length cset) - 1
               \<and> map tag set' = (map tag cset)[v := t]
               \<and> map valid set' = map valid cset))"
proof (intro conjI impI)
  assume "\<exists>l \<in> set cset. valid l \<noteq> 0 \<and> tag l = t"
  from main_place_hit [OF this]
  show "\<exists>set'. main_place cset t = Inr (set', Hit)
               \<and> map tag set' = map tag cset \<and> map valid set' = map valid cset"
    by auto
next
  assume a: "\<not> (\<exists>l \<in> set cset. valid l \<noteq> 0 \<and> tag l = t) \<and> (\<exists>l \<in> set cset. valid l = 0)"
  then have "\<not> (\<exists>l \<in> set cset. valid l \<noteq> 0 \<and> tag l = t)" "\<exists>l \<in> set cset. valid l = 0"
    by blast+
  from main_place_fill [OF this] obtain k where k: "k < length cset" "valid (cset ! k) = 0"
    "\<forall>j < k. valid (cset ! j) \<noteq> 0"
    "main_place cset t =
               Inr ((update_lru_cntr cset (lru_cntr (cset ! k)))
                      [k := (update_lru_cntr cset (lru_cntr (cset ! k)) ! k)\<lparr>valid := 1, tag := t\<rparr>],
                    MissNoEvict)"
    by blast
  show "\<exists>set' k. main_place cset t = Inr (set', MissNoEvict)
               \<and> k < length cset \<and> valid (cset ! k) = 0 \<and> (\<forall>j < k. valid (cset ! j) \<noteq> 0)
               \<and> map tag set' = (map tag cset)[k := t]
               \<and> map valid set' = (map valid cset)[k := 1]"
    by (intro exI [of _ k] exI [of _ "(update_lru_cntr cset (lru_cntr (cset ! k)))
                      [k := (update_lru_cntr cset (lru_cntr (cset ! k)) ! k)\<lparr>valid := 1, tag := t\<rparr>]"])
       (use k in \<open>simp add: map_update\<close>)
next
  assume a: "\<not> (\<exists>l \<in> set cset. valid l \<noteq> 0 \<and> tag l = t) \<and> (\<forall>l \<in> set cset. valid l \<noteq> 0)"
  then have "\<not> (\<exists>l \<in> set cset. valid l \<noteq> 0 \<and> tag l = t)" "\<forall>l \<in> set cset. valid l \<noteq> 0"
    by blast+
  from main_place_evict [OF this assms] obtain v where v: "v < length cset"
    "rank (cset ! v) = int (length cset) - 1"
    "main_place cset t =
               Inr ((update_lru_cntr cset (lru_cntr (cset ! v)))
                      [v := (update_lru_cntr cset (lru_cntr (cset ! v)) ! v)\<lparr>tag := t\<rparr>],
                    MissWithEvict)"
    by blast
  have "map valid ((update_lru_cntr cset (lru_cntr (cset ! v)))
                      [v := (update_lru_cntr cset (lru_cntr (cset ! v)) ! v)\<lparr>tag := t\<rparr>]) = map valid cset"
    using v(1) by (simp add: map_update list_update_same_conv)
  then show "\<exists>set' v. main_place cset t = Inr (set', MissWithEvict)
               \<and> v < length cset \<and> rank (cset ! v) = int (length cset) - 1
               \<and> map tag set' = (map tag cset)[v := t]
               \<and> map valid set' = map valid cset"
    by (intro exI [of _ v] exI [of _ "(update_lru_cntr cset (lru_cntr (cset ! v)))
                      [v := (update_lru_cntr cset (lru_cntr (cset ! v)) ! v)\<lparr>tag := t\<rparr>]"])
       (use v in \<open>simp add: map_update\<close>)
qed

theorem set_access_cases_witness:
  "(\<exists>set'. main_place [\<lparr>tag = 5, valid = 1, lru_cntr = 1\<rparr>, \<lparr>tag = 7, valid = 1, lru_cntr = 0\<rparr>] 5
             = Inr (set', Hit) \<and> map tag set' = [5, 7] \<and> map valid set' = [1, 1])
   \<and> (\<exists>set'. main_place [\<lparr>tag = 5, valid = 1, lru_cntr = 0\<rparr>, \<lparr>tag = 7, valid = 0, lru_cntr = 1\<rparr>] 9
             = Inr (set', MissNoEvict) \<and> map tag set' = [5, 9] \<and> map valid set' = [1, 1])
   \<and> (\<exists>set'. main_place [\<lparr>tag = 5, valid = 1, lru_cntr = 1\<rparr>, \<lparr>tag = 7, valid = 1, lru_cntr = 0\<rparr>] 9
             = Inr (set', MissWithEvict) \<and> map tag set' = [9, 7] \<and> map valid set' = [1, 1])"
proof -
  let ?full = "[\<lparr>tag = 5, valid = 1, lru_cntr = 1\<rparr>, \<lparr>tag = 7, valid = 1, lru_cntr = 0\<rparr>]"
  let ?half = "[\<lparr>tag = 5, valid = 1, lru_cntr = 0\<rparr>, \<lparr>tag = 7, valid = 0, lru_cntr = 1\<rparr>]"
  have f: "rank_inv ?full" "?full \<noteq> []" by (simp_all add: rank_inv_def rank_def)
  have h: "rank_inv ?half" "?half \<noteq> []" by (simp_all add: rank_inv_def rank_def)
  have 1: "\<exists>set'. main_place ?full 5 = Inr (set', Hit) \<and> map tag set' = [5, 7] \<and> map valid set' = [1, 1]"
    using set_access_cases [OF f, of 5] by simp
  have 2: "\<exists>set'. main_place ?half 9 = Inr (set', MissNoEvict) \<and> map tag set' = [5, 9] \<and> map valid set' = [1, 1]"
    using set_access_cases [OF h, of 9] by (auto simp: less_Suc_eq_0_disj nth_Cons')
  have 3: "\<exists>set'. main_place ?full 9 = Inr (set', MissWithEvict) \<and> map tag set' = [9, 7] \<and> map valid set' = [1, 1]"
    using set_access_cases [OF f, of 9] by (auto simp: less_Suc_eq_0_disj nth_Cons' rank_def)
  from 1 2 3 show ?thesis by blast
qed

text \<open>
  Claim C3. The promotion step for the former rank \<open>r0\<close> keeps the number of lines,
  every tag and every valid flag, and changes the rank of each line so: below \<open>r0\<close> it
  grows by one (as a number: the 16-bit addition does not wrap there), at \<open>r0\<close> it
  becomes 0, above \<open>r0\<close> it stays.
\<close>

theorem rank_promotion:
  "length (update_lru_cntr cset r0) = length cset
   \<and> (\<forall>i < length cset.
        tag (update_lru_cntr cset r0 ! i) = tag (cset ! i)
      \<and> valid (update_lru_cntr cset r0 ! i) = valid (cset ! i)
      \<and> sint (lru_cntr (update_lru_cntr cset r0 ! i)) =
          (if sint (lru_cntr (cset ! i)) < sint r0 then sint (lru_cntr (cset ! i)) + 1
           else if sint (lru_cntr (cset ! i)) = sint r0 then 0
           else sint (lru_cntr (cset ! i))))"
  using rank_update_lru_cntr [of _ cset r0]
  by (simp add: rank_def promote_def)

theorem rank_promotion_witness:
  "map (\<lambda>l. sint (lru_cntr l))
     (update_lru_cntr [\<lparr>tag = 5, valid = 1, lru_cntr = 2\<rparr>, \<lparr>tag = 7, valid = 1, lru_cntr = 0\<rparr>,
                       \<lparr>tag = 8, valid = 0, lru_cntr = 1\<rparr>, \<lparr>tag = 0, valid = 0, lru_cntr = 3\<rparr>] 2)
     = [0, 1, 2, 3]"
  using rank_promotion [of "[\<lparr>tag = 5, valid = 1, lru_cntr = 2\<rparr>, \<lparr>tag = 7, valid = 1, lru_cntr = 0\<rparr>,
                       \<lparr>tag = 8, valid = 0, lru_cntr = 1\<rparr>, \<lparr>tag = 0, valid = 0, lru_cntr = 3\<rparr>]" 2]
  by simp

subsection \<open>The invariant along a run, and the trace\<close>

lemma rank_inv_cong: "map rank a = map rank b \<Longrightarrow> rank_inv a = rank_inv b"
proof -
  assume m: "map rank a = map rank b"
  then have "length a = length b" by (rule map_eq_imp_length_eq)
  with m show ?thesis by (simp add: rank_inv_def)
qed

lemma map_rank_list_update:
  "i < length xs \<Longrightarrow> rank l = rank (xs ! i) \<Longrightarrow> map rank (xs[i := l]) = map rank xs"
  by (simp add: map_update list_update_same_conv)

lemma rank_inv_counter:
  assumes "rank_inv cset" "i < length cset"
  shows "rank_inv (update_lru_cntr cset (lru_cntr (cset ! i)))"
  using rank_inv_bounds [OF assms] assms(1)
  by (intro rank_inv_update_lru_cntr) (simp_all add: rank_def)

lemma main_place_Nil: "main_place [] t = Inl UndefinedBehaviour"
  by (simp add: main_place_def cache_lookup_def)

lemma main_place_total:
  assumes "rank_inv cset" "cset \<noteq> []"
  shows "\<exists>set' oc. main_place cset t = Inr (set', oc) \<and> rank_inv set' \<and> length set' = length cset"
proof -
  consider (hit) "\<exists>l \<in> set cset. valid l \<noteq> 0 \<and> tag l = t"
    | (fill) "\<not> (\<exists>l \<in> set cset. valid l \<noteq> 0 \<and> tag l = t)" "\<exists>l \<in> set cset. valid l = 0"
    | (evict) "\<not> (\<exists>l \<in> set cset. valid l \<noteq> 0 \<and> tag l = t)" "\<forall>l \<in> set cset. valid l \<noteq> 0"
    by blast
  then show ?thesis
  proof cases
    case hit
    from main_place_hit [OF hit] obtain i where i: "i < length cset"
      "main_place cset t = Inr (update_lru_cntr cset (lru_cntr (cset ! i)), Hit)" by blast
    with rank_inv_counter [OF assms(1) i(1)] show ?thesis by simp
  next
    case fill
    from main_place_fill [OF fill] obtain k where k: "k < length cset"
      "main_place cset t =
               Inr ((update_lru_cntr cset (lru_cntr (cset ! k)))
                      [k := (update_lru_cntr cset (lru_cntr (cset ! k)) ! k)\<lparr>valid := 1, tag := t\<rparr>],
                    MissNoEvict)" by blast
    let ?u = "update_lru_cntr cset (lru_cntr (cset ! k))"
    have "map rank (?u[k := (?u ! k)\<lparr>valid := 1, tag := t\<rparr>]) = map rank ?u"
      using k(1) by (intro map_rank_list_update) (simp_all add: rank_def)
    from rank_inv_cong [OF this] have "rank_inv (?u[k := (?u ! k)\<lparr>valid := 1, tag := t\<rparr>])"
      using rank_inv_counter [OF assms(1) k(1)] by simp
    with k(2) show ?thesis by simp
  next
    case evict
    from main_place_evict [OF evict assms] obtain v where v: "v < length cset"
      "main_place cset t =
               Inr ((update_lru_cntr cset (lru_cntr (cset ! v)))
                      [v := (update_lru_cntr cset (lru_cntr (cset ! v)) ! v)\<lparr>tag := t\<rparr>],
                    MissWithEvict)" by blast
    let ?u = "update_lru_cntr cset (lru_cntr (cset ! v))"
    have "map rank (?u[v := (?u ! v)\<lparr>tag := t\<rparr>]) = map rank ?u"
      using v(1) by (intro map_rank_list_update) (simp_all add: rank_def)
    from rank_inv_cong [OF this] have "rank_inv (?u[v := (?u ! v)\<lparr>tag := t\<rparr>])"
      using rank_inv_counter [OF assms(1) v(1)] by simp
    with v(2) show ?thesis by simp
  qed
qed

lemma main_place_rank_inv:
  assumes "main_place cset t = Inr (set', oc)" "rank_inv cset"
  shows "rank_inv set' \<and> length set' = length cset"
proof (cases "cset = []")
  case True
  with assms(1) show ?thesis by (simp add: main_place_Nil)
next
  case False
  from main_place_total [OF assms(2) False, of t] assms(1) show ?thesis by auto
qed

lemma sint_word_of_nat16: "x < 32768 \<Longrightarrow> sint (word_of_nat x :: 16 word) = int x"
  using sint_word_of_int16 [of "int x"] by simp

lemma map_rank_init_set:
  assumes "assoc \<le> 32768"
  shows "map rank (init_set junk assoc) = map int [0..<assoc]"
  unfolding init_set_def using assms
  by (auto simp: rank_def sint_word_of_nat16)

lemma rank_inv_init_set: "assoc \<le> 32768 \<Longrightarrow> rank_inv (init_set junk assoc)"
  by (simp add: rank_inv_def map_rank_init_set) (simp add: init_set_def)

lemma length_init_set [simp]: "length (init_set junk assoc) = assoc"
  by (simp add: init_set_def)

lemma sets_inv_main_init: "assoc \<le> 32768 \<Longrightarrow> sets_inv assoc (cache (main_init junk s assoc))"
  by (auto simp: sets_inv_def main_init_def rank_inv_init_set)

lemma length_cache_main_init [simp]: "length (cache (main_init junk s assoc)) = 2 ^ s"
  by (simp add: main_init_def)

lemma cache_tally [simp]: "cache (tally oc st) = cache st"
  by (cases oc) (simp_all add: tally_def)

lemma sets_inv_update:
  "sets_inv assoc c \<Longrightarrow> length cset = assoc \<Longrightarrow> rank_inv cset \<Longrightarrow> sets_inv assoc (c[i := cset])"
  by (auto simp: sets_inv_def dest!: set_update_subset_insert [THEN subsetD])

lemma main_step_sets_inv:
  assumes "main_step s b st c a = Inr st'" "sets_inv assoc (cache st)"
  shows "sets_inv assoc (cache st') \<and> length (cache st') = length (cache st)"
proof (cases "c = CHR ''I''")
  case True
  with assms show ?thesis by (simp add: main_step_def)
next
  case False
  with assms(1) obtain t i set' oc where d: "decode s b a = Some (t, i)" "i < length (cache st)"
    "main_place (cache st ! i) t = Inr (set', oc)"
    and c: "cache st' = (cache st)[i := set']"
    by (auto simp: main_step_def Let_def split: option.splits if_splits sum.splits)
  from d(2) assms(2) have "rank_inv (cache st ! i)" "length (cache st ! i) = assoc"
    by (simp_all add: sets_inv_def)
  with main_place_rank_inv [OF d(3)] have "rank_inv set'" "length set' = assoc" by simp_all
  with assms(2) c show ?thesis by (simp add: sets_inv_update)
qed

lemma main_loop_sets_inv:
  "main_loop s b st tr = Inr st' \<Longrightarrow> sets_inv assoc (cache st) \<Longrightarrow>
     sets_inv assoc (cache st') \<and> length (cache st') = length (cache st)"
proof (induction s b st tr rule: main_loop.induct)
  case (1 s b st)
  then show ?case by simp
next
  case (2 s b st rest)
  then show ?case by simp
next
  case (3 s b st access_type address rest)
  from "3.prems"(1) obtain st1 where st1: "main_step s b st access_type address = Inr st1"
    "main_loop s b st1 rest = Inr st'"
    by (auto split: sum.splits)
  from main_step_sets_inv [OF st1(1) "3.prems"(2)] "3.IH" [OF st1(1) st1(2)]
  show ?case by simp
qed

text \<open>
  Within the range of the counter the code keeps the invariant: for associativities up
  to 32768, at initialisation and in every state the replay of any trace reaches, the
  ranks of every set are, as a multiset, exactly \<open>0, ..., E - 1\<close>.
\<close>

theorem rank_invariant_in_range:
  assumes "assoc \<le> 32768"
  shows "sets_inv assoc (cache (main_init junk s assoc))
       \<and> (\<forall>tr st. main_loop s b (main_init junk s assoc) tr = Inr st \<longrightarrow> sets_inv assoc (cache st))"
  using sets_inv_main_init [OF assms] main_loop_sets_inv by blast

theorem rank_invariant_in_range_witness:
  "sets_inv 2 (cache (main_init zero_junk 0 2))
   \<and> sets_inv 2 [[\<lparr>tag = 2, valid = 1, lru_cntr = 1\<rparr>, \<lparr>tag = 1, valid = 1, lru_cntr = 0\<rparr>]]"
proof -
  have "main_loop 0 0 (main_init zero_junk 0 2)
          [Entry CHR ''L'' 0, Entry CHR ''L'' 1, Entry CHR ''M'' 2, Entry CHR ''I'' 7, Entry CHR ''S'' 1]
        = Inr \<lparr>cache = [[\<lparr>tag = 2, valid = 1, lru_cntr = 1\<rparr>, \<lparr>tag = 1, valid = 1, lru_cntr = 0\<rparr>]],
               hits = 2, misses = 3, evictions = 1\<rparr>"
    by code_simp
  with rank_invariant_in_range [of 2 zero_junk 0 0] show ?thesis
    by fastforce
qed

lemma init_set_overflow:
  assumes "32768 < assoc"
  shows "rank (init_set junk assoc ! 32768) = - 32768"
proof -
  have "init_set junk assoc ! 32768 = \<lparr>tag = junk 32768, valid = 0, lru_cntr = word_of_int (int 32768)\<rparr>"
    unfolding init_set_def using assms by (subst nth_map) simp_all
  then show ?thesis by (simp add: rank_def)
qed

lemma not_rank_inv_init_set:
  assumes "32768 < assoc"
  shows "\<not> rank_inv (init_set junk assoc)"
proof
  assume "rank_inv (init_set junk assoc)"
  from rank_inv_bounds [OF this, of 32768] assms init_set_overflow [OF assms, of junk]
  show False by simp
qed

lemma cache_main_init_0: "cache (main_init junk 0 assoc) = [init_set (junk 0) assoc]"
  by (simp add: main_init_def)

text \<open>
  Claim C2: in every set, at initialisation and after every access, the ranks are as
  a multiset exactly \<open>0, ..., E - 1\<close>. The code run with \<^verbatim>\<open>-s 0 -E 32769\<close>: the
  one set has 32769 lines, \<^verbatim>\<open>lru_cntr = j\<close> stores 32768 into the \<^verbatim>\<open>short\<close> of line
  32768, which then holds \<open>- 32768\<close>, and the ranks of the set are not
  \<open>0, ..., 32768\<close>, before any access.
\<close>

theorem rank_invariant_overflow:
  "cache (main_init zero_junk 0 32769) = [init_set (zero_junk 0) 32769]
   \<and> rank (init_set (zero_junk 0) 32769 ! 32768) = - 32768
   \<and> \<not> rank_inv (init_set (zero_junk 0) 32769)"
proof (intro conjI)
  show "cache (main_init zero_junk 0 32769) = [init_set (zero_junk 0) 32769]"
    by (rule cache_main_init_0)
  show "rank (init_set (zero_junk 0) 32769 ! 32768) = - 32768"
    by (rule init_set_overflow) simp
  show "\<not> rank_inv (init_set (zero_junk 0) 32769)"
    by (rule not_rank_inv_init_set) simp
qed

lemma main_step_instruction [simp]: "main_step s b st CHR ''I'' a = Inr st"
  by (simp add: main_step_def)

text \<open>
  Claim C9. Replaying a trace gives the same result (cache and counters, or the same
  failure) as replaying it with the \<^verbatim>\<open>I\<close> entries removed; an \<^verbatim>\<open>I\<close> entry never
  reaches the cache (\<open>main_step_instruction\<close>).
\<close>

theorem instructions_removed:
  "main_loop s b st (filter (\<lambda>e. \<not> is_instruction e) tr) = main_loop s b st tr"
proof (induction s b st tr rule: main_loop.induct)
  case (1 s b st)
  show ?case by simp
next
  case (2 s b st rest)
  show ?case by simp
next
  case (3 s b st access_type address rest)
  show ?case
  proof (cases "access_type = CHR ''I''")
    case True
    with "3.IH" [of st] show ?thesis by simp
  next
    case False
    with "3.IH" show ?thesis by (simp split: sum.splits)
  qed
qed

theorem instructions_removed_witness:
  "main_loop 0 0 (main_init zero_junk 0 2) [Entry CHR ''L'' 0, Entry CHR ''S'' 1]
     = main_loop 0 0 (main_init zero_junk 0 2)
         [Entry CHR ''I'' 4, Entry CHR ''L'' 0, Entry CHR ''I'' 1, Entry CHR ''S'' 1]"
  using instructions_removed [of 0 0 "main_init zero_junk 0 2"
      "[Entry CHR ''I'' 4, Entry CHR ''L'' 0, Entry CHR ''I'' 1, Entry CHR ''S'' 1]"]
  by simp

text \<open>
  Claim C10. An entry whose kind character is neither \<^verbatim>\<open>I\<close> nor \<^verbatim>\<open>M\<close> is processed
  exactly as an \<^verbatim>\<open>L\<close> entry with the same address: same cache, same counters.
\<close>

theorem kind_irrelevant:
  "c \<noteq> CHR ''I'' \<Longrightarrow> c \<noteq> CHR ''M'' \<Longrightarrow> main_step s b st c a = main_step s b st CHR ''L'' a"
  by (auto simp: main_step_def split: option.splits sum.splits)

theorem kind_irrelevant_witness:
  "main_step 0 0 (main_init zero_junk 0 1) CHR ''X'' 5 = main_step 0 0 (main_init zero_junk 0 1) CHR ''L'' 5
   \<and> main_step 0 0 (main_init zero_junk 0 1) CHR ''X'' 5
       = Inr \<lparr>cache = [[\<lparr>tag = 5, valid = 1, lru_cntr = 0\<rparr>]], hits = 0, misses = 1, evictions = 0\<rparr>"
proof -
  have "main_step 0 0 (main_init zero_junk 0 1) CHR ''X'' 5
       = Inr \<lparr>cache = [[\<lparr>tag = 5, valid = 1, lru_cntr = 0\<rparr>]], hits = 0, misses = 1, evictions = 0\<rparr>"
    by code_simp
  moreover have "main_step 0 0 (main_init zero_junk 0 1) CHR ''X'' 5
      = main_step 0 0 (main_init zero_junk 0 1) CHR ''L'' 5"
    by (rule kind_irrelevant) simp_all
  ultimately show ?thesis by simp
qed

text \<open>
  Claim C7 as stated fails: a load, an item that does not scan, and a second load of the
  same address are not replayed as the two loads are (the second load, a hit, is never
  counted).
\<close>

theorem malformed_skipped_counterexample:
  "main_loop 0 0 (main_init zero_junk 0 1) [Entry CHR ''L'' 0, NoMatch, Entry CHR ''L'' 0]
     \<noteq> main_loop 0 0 (main_init zero_junk 0 1) [Entry CHR ''L'' 0, Entry CHR ''L'' 0]"
  by code_simp

text \<open>
  Claim C7, as the code has it. Where \<^verbatim>\<open>fscanf\<close> does not deliver both the kind and
  the address, the loop ends: the entries before that point are replayed and counted,
  nothing after it is read, and the run ends normally with the counters reached so far.
\<close>

theorem loop_stops_at_no_match:
  "main_loop s b st (pre @ NoMatch # rest) = main_loop s b st pre"
proof (induction s b st pre rule: main_loop.induct)
  case (1 s b st)
  show ?case by simp
next
  case (2 s b st rest)
  show ?case by simp
next
  case (3 s b st access_type address rest)
  then show ?case by (simp split: sum.splits)
qed

theorem loop_stops_at_no_match_witness:
  "main_loop 0 0 (main_init zero_junk 0 1) [Entry CHR ''L'' 0, NoMatch, Entry CHR ''L'' 0]
     = Inr \<lparr>cache = [[\<lparr>tag = 0, valid = 1, lru_cntr = 0\<rparr>]], hits = 0, misses = 1, evictions = 0\<rparr>"
proof -
  have "main_loop 0 0 (main_init zero_junk 0 1) [Entry CHR ''L'' 0]
     = Inr \<lparr>cache = [[\<lparr>tag = 0, valid = 1, lru_cntr = 0\<rparr>]], hits = 0, misses = 1, evictions = 0\<rparr>"
    by code_simp
  with loop_stops_at_no_match [of 0 0 "main_init zero_junk 0 1" "[Entry CHR ''L'' 0]" "[Entry CHR ''L'' 0]"]
  show ?thesis by simp
qed

subsection \<open>The address decomposition\<close>

lemma index_mask: "(push_bit s 1 - 1 :: 64 word) = mask s"
  by (simp add: mask_eq_exp_minus_1)

lemma bit_signed_drop_bit64:
  "bit (signed_drop_bit k (a :: 64 word)) n = bit a (if 64 - k \<le> n \<and> n < 64 then 63 else k + n)"
  by (simp only: bit_signed_drop_bit_iff len_bit0 len_num1 mult_2 one_add_one numeral_Bit0 [symmetric])
     simp

lemma bit_drop_bit64: "bit (drop_bit k (a :: 64 word)) n = bit a (k + n)"
  by (simp add: bit_drop_bit_eq add.commute)

lemma bit_beyond64: "64 \<le> n \<Longrightarrow> \<not> bit (a :: 64 word) n"
  by (auto dest: bit_imp_le_length)

lemma signed_index:
  assumes "s + b \<le> 64"
  shows "signed_drop_bit b (a :: 64 word) AND mask s = drop_bit b a AND mask s"
proof (rule bit_eqI)
  fix n
  have "n < s \<Longrightarrow> \<not> (64 - b \<le> n \<and> n < 64)" using assms by arith
  then show "bit (signed_drop_bit b a AND mask s) n = bit (drop_bit b a AND mask s) n"
    by (auto simp only: bit_and_iff bit_mask_iff bit_signed_drop_bit64 bit_drop_bit64 split: if_splits)
qed

lemma index_bound: "unat ((x :: 64 word) AND mask s) < 2 ^ s"
proof -
  have "unat (x AND mask s) = take_bit s (unat x)"
    by (simp only: take_bit_eq_mask [symmetric] unsigned_take_bit_eq)
  then show ?thesis by (simp only: take_bit_nat_less_exp)
qed

lemma signed_tag_eq:
  assumes "k < 64"
  shows "signed_drop_bit k (a :: 64 word) = drop_bit k a \<longleftrightarrow> \<not> bit a 63 \<or> k = 0"
proof
  assume e: "signed_drop_bit k a = drop_bit k a"
  show "\<not> bit a 63 \<or> k = 0"
  proof (rule ccontr)
    assume "\<not> (\<not> bit a 63 \<or> k = 0)"
    then have h: "bit a 63" "0 < k" by simp_all
    have "64 - k \<le> 63 \<and> (63 :: nat) < 64" using h(2) by arith
    then have "bit (signed_drop_bit k a) 63" using h(1) by (simp add: bit_signed_drop_bit64)
    moreover have "\<not> bit (drop_bit k a) 63"
      unfolding bit_drop_bit64 using h(2) by (intro bit_beyond64) arith
    ultimately show False using e by simp
  qed
next
  assume h: "\<not> bit a 63 \<or> k = 0"
  show "signed_drop_bit k a = drop_bit k a"
  proof (rule bit_eqI)
    fix n
    show "bit (signed_drop_bit k a) n = bit (drop_bit k a) n"
    proof (cases "64 - k \<le> n \<and> n < 64")
      case True
      then have "64 \<le> k + n \<or> k = 0" by arith
      then show ?thesis
      proof
        assume "64 \<le> k + n"
        moreover from this True have "k \<noteq> 0" by arith
        ultimately show ?thesis
          using h True bit_beyond64 [of "k + n" a] by (simp only: bit_signed_drop_bit64 bit_drop_bit64 if_True) simp
      next
        assume "k = 0"
        then show ?thesis by simp
      qed
    next
      case False
      then show ?thesis by (simp only: bit_signed_drop_bit64 bit_drop_bit64 if_False)
    qed
  qed
qed

lemma signed_tag_inj:
  assumes "k < 64"
  shows "signed_drop_bit k (a1 :: 64 word) = signed_drop_bit k a2 \<longleftrightarrow> drop_bit k a1 = drop_bit k a2"
proof
  assume e: "signed_drop_bit k a1 = signed_drop_bit k a2"
  show "drop_bit k a1 = drop_bit k a2"
  proof (rule bit_eqI)
    fix n
    show "bit (drop_bit k a1) n = bit (drop_bit k a2) n"
    proof (cases "n < 64 - k")
      case True
      then have "\<not> (64 - k \<le> n \<and> n < 64)" by arith
      then have "bit (signed_drop_bit k a) n = bit (drop_bit k a) n" for a :: "64 word"
        by (simp only: bit_signed_drop_bit64 bit_drop_bit64 if_False)
      from this [of a1] this [of a2] e show ?thesis by simp
    next
      case False
      then have "64 \<le> k + n" by arith
      then have "\<not> bit (drop_bit k a) n" for a :: "64 word"
        unfolding bit_drop_bit64 by (rule bit_beyond64)
      then show ?thesis by simp
    qed
  qed
next
  assume e: "drop_bit k a1 = drop_bit k a2"
  have "k + (63 - k) = 63" using assms by arith
  then have top: "bit a 63 = bit (drop_bit k a) (63 - k)" for a :: "64 word"
    by (simp only: bit_drop_bit64)
  show "signed_drop_bit k a1 = signed_drop_bit k a2"
  proof (rule bit_eqI)
    fix n
    have "bit (signed_drop_bit k a) n =
            (if 64 - k \<le> n \<and> n < 64 then bit (drop_bit k a) (63 - k) else bit (drop_bit k a) n)"
      for a :: "64 word"
    proof (cases "64 - k \<le> n \<and> n < 64")
      case True
      then show ?thesis using top [of a] by (simp add: bit_signed_drop_bit64)
    next
      case False
      then show ?thesis by (simp only: bit_signed_drop_bit64 bit_drop_bit64 if_False)
    qed
    from this [of a1] this [of a2] e
    show "bit (signed_drop_bit k a1) n = bit (signed_drop_bit k a2) n" by simp
  qed
qed

lemma sint_signed_tag: "sint (signed_drop_bit k (a :: 64 word)) = sint a div 2 ^ k"
  by (simp add: sint_signed_drop_bit_eq drop_bit_eq_div)

text \<open>
  Claim C8, as the code has it. For \<open>s \<le> 30\<close> and \<open>s + b < 64\<close> (beyond that the C
  shifts are undefined) the decomposition is defined; the set index is the one of the
  specification and is below \<open>2 ^ s\<close>; the tag is the arithmetic shift of the address read
  as a signed 64-bit number. It is the specification's tag exactly when bit 63 of the
  address is clear or nothing is shifted, and two addresses have the same tag exactly
  when they have the same tag in the specification.
\<close>

theorem decode_signed:
  assumes "s \<le> 30" and "s + b < 64"
  shows "decode s b address = Some (signed_drop_bit (s + b) address, snd (decode_spec address s b))
       \<and> snd (decode_spec address s b) < 2 ^ s
       \<and> sint (signed_drop_bit (s + b) address) = sint address div 2 ^ (s + b)
       \<and> (signed_drop_bit (s + b) address = fst (decode_spec address s b)
            \<longleftrightarrow> \<not> bit address 63 \<or> s + b = 0)
       \<and> (signed_drop_bit (s + b) address = signed_drop_bit (s + b) address'
            \<longleftrightarrow> fst (decode_spec address s b) = fst (decode_spec address' s b))"
proof (intro conjI)
  have "s + b \<le> 64" using assms(2) by simp
  from signed_index [OF this, of address]
  show "decode s b address = Some (signed_drop_bit (s + b) address, snd (decode_spec address s b))"
    using assms by (simp only: decode_def decode_spec_def index_mask) simp
  show "snd (decode_spec address s b) < 2 ^ s"
    unfolding decode_spec_def snd_conv index_mask by (rule index_bound)
  show "sint (signed_drop_bit (s + b) address) = sint address div 2 ^ (s + b)"
    by (rule sint_signed_tag)
  from signed_tag_eq [OF assms(2), of address]
  show "signed_drop_bit (s + b) address = fst (decode_spec address s b)
            \<longleftrightarrow> \<not> bit address 63 \<or> s + b = 0"
    by (simp only: decode_spec_def fst_conv)
  from signed_tag_inj [OF assms(2), of address address']
  show "signed_drop_bit (s + b) address = signed_drop_bit (s + b) address'
            \<longleftrightarrow> fst (decode_spec address s b) = fst (decode_spec address' s b)"
    by (simp only: decode_spec_def fst_conv)
qed

theorem decode_signed_witness:
  "decode 4 4 0x7ff000398 = Some (134152195, 9) \<and> decode_spec 0x7ff000398 4 4 = (134152195, 9)"
proof -
  have a: "(4 :: nat) \<le> 30" "(4 :: nat) + 4 < 64" by simp_all
  have d: "decode_spec 0x7ff000398 4 4 = (134152195, 9)"
    by (simp add: decode_spec_def)
  have t: "signed_drop_bit (4 + 4) (0x7ff000398 :: 64 word) = 134152195"
    by simp
  from decode_signed [OF a, where address = "0x7ff000398" and address' = 0] show ?thesis
    unfolding d t by simp
qed

text \<open>
  Claim C8 as stated fails on an address with bit 63 set: the code's tag has the sign
  bit copied in.
\<close>

theorem decode_counterexample:
  "decode 0 1 0x8000000000000000 \<noteq> Some (decode_spec 0x8000000000000000 0 1)"
  by (simp add: decode_def decode_spec_def)

subsection \<open>The assertion of cache_lookup\<close>

lemma slot_scan_Inr_valid:
  "slot_scan ls i m p = Inr r \<Longrightarrow> \<forall>l \<in> set ls. valid l \<noteq> 0"
proof (rule ccontr)
  assume a: "slot_scan ls i m p = Inr r" "\<not> (\<forall>l \<in> set ls. valid l \<noteq> 0)"
  then have "\<exists>l \<in> set ls. valid l = 0" by simp
  from slot_scan_invalid [OF this, of i m p] a(1) show False by auto
qed

lemma eviction_max:
  assumes "rank_inv cset" "hit_scan cset t = None" "slot_scan cset 0 (- 1) None = Inr (m, p)"
  shows "sint m = int (length cset) - 1"
proof (cases "cset = []")
  case True
  with assms(3) show ?thesis by auto
next
  case False
  from assms(2) have nh: "\<not> (\<exists>l \<in> set cset. valid l \<noteq> 0 \<and> tag l = t)"
    by (simp add: hit_scan_None)
  from slot_scan_Inr_valid [OF assms(3)] have av: "\<forall>l \<in> set cset. valid l \<noteq> 0" .
  from cache_lookup_evict [OF nh av assms(1) False] assms(3) show ?thesis
    by (auto simp: rank_def)
qed

lemma cache_lookup_assert:
  assumes "rank_inv cset"
  shows "cache_lookup cset t \<noteq> Inl AssertionFailed"
  using eviction_max [OF assms, of t]
  by (auto simp: cache_lookup_def split: option.splits sum.splits)

lemma main_place_assert:
  assumes "rank_inv cset"
  shows "main_place cset t \<noteq> Inl AssertionFailed"
  using cache_lookup_assert [OF assms, of t]
  by (auto simp: main_place_def split: sum.splits option.splits)

lemma main_step_assert:
  assumes "sets_inv assoc (cache st)"
  shows "main_step s b st c a \<noteq> Inl AssertionFailed"
proof
  assume f: "main_step s b st c a = Inl AssertionFailed"
  then obtain t i where d: "decode s b a = Some (t, i)" "i < length (cache st)"
    "main_place (cache st ! i) t = Inl AssertionFailed"
    by (auto simp: main_step_def Let_def split: option.splits if_splits sum.splits)
  from d(2) assms have "rank_inv (cache st ! i)" by (simp add: sets_inv_def)
  from main_place_assert [OF this] d(3) show False by simp
qed

lemma main_loop_assert:
  "sets_inv assoc (cache st) \<Longrightarrow> main_loop s b st tr \<noteq> Inl AssertionFailed"
proof (induction s b st tr rule: main_loop.induct)
  case (1 s b st)
  show ?case by simp
next
  case (2 s b st rest)
  show ?case by simp
next
  case (3 s b st access_type address rest)
  show ?case
  proof (cases "main_step s b st access_type address")
    case (Inl e)
    with main_step_assert [OF "3.prems", of s b access_type address] show ?thesis by simp
  next
    case (Inr st1)
    from main_step_sets_inv [OF Inr "3.prems"] have "sets_inv assoc (cache st1)" by simp
    from "3.IH" [OF Inr this] Inr show ?thesis by simp
  qed
qed

lemma decode_defined:
  assumes "s \<le> 30" "s + b < 64"
  shows "\<exists>t i. decode s b a = Some (t, i) \<and> i < 2 ^ s"
proof -
  have "unat (signed_drop_bit b a AND mask s) < 2 ^ s" by (rule index_bound)
  then show ?thesis using assms by (simp only: decode_def index_mask) simp
qed

lemma main_step_total:
  assumes "sets_inv assoc (cache st)" "1 \<le> assoc" "length (cache st) = 2 ^ s" "s \<le> 30" "s + b < 64"
  shows "\<exists>st'. main_step s b st c a = Inr st'"
proof (cases "c = CHR ''I''")
  case True
  then show ?thesis by simp
next
  case False
  from decode_defined [OF assms(4,5), of a] obtain t i where d: "decode s b a = Some (t, i)" "i < 2 ^ s"
    by blast
  with assms(1,3) have "rank_inv (cache st ! i)" "length (cache st ! i) = assoc"
    by (simp_all add: sets_inv_def)
  moreover from this assms(2) have "cache st ! i \<noteq> []" by auto
  ultimately obtain set' oc where "main_place (cache st ! i) t = Inr (set', oc)"
    using main_place_total [of "cache st ! i" t] by blast
  with d assms(3) False show ?thesis by (simp add: main_step_def Let_def)
qed

lemma main_loop_total:
  "sets_inv assoc (cache st) \<Longrightarrow> 1 \<le> assoc \<Longrightarrow> length (cache st) = 2 ^ s \<Longrightarrow> s \<le> 30 \<Longrightarrow> s + b < 64
     \<Longrightarrow> \<exists>st'. main_loop s b st tr = Inr st'"
proof (induction s b st tr rule: main_loop.induct)
  case (1 s b st)
  show ?case by simp
next
  case (2 s b st rest)
  show ?case by simp
next
  case (3 s b st access_type address rest)
  from main_step_total [OF "3.prems", of access_type address]
  obtain st1 where st1: "main_step s b st access_type address = Inr st1" by blast
  from main_step_sets_inv [OF st1 "3.prems"(1)] "3.prems"(3)
  have "sets_inv assoc (cache st1)" "length (cache st1) = 2 ^ s" by simp_all
  from "3.IH" [OF st1 this(1) "3.prems"(2) this(2) "3.prems"(4,5)] st1 show ?case by simp
qed

subsection \<open>The counters\<close>

text \<open>
  Claim C4. One trace entry in the loop body. An \<^verbatim>\<open>I\<close> entry is processed and leaves
  the whole state, so every counter, as it is. For any other entry, when the access to
  the addressed set has the outcome \<open>oc\<close>, the entry is processed and the new state
  has the updated set and the counters so: \<open>hits\<close> grows by one on a hit, \<open>misses\<close>
  by one on a miss, \<open>evictions\<close> by one on a miss with eviction, and \<open>hits\<close> by one
  more for an \<^verbatim>\<open>M\<close> entry whatever the outcome. In a well-formed state (every set with
  its \<open>assoc \<ge> 1\<close> lines and its ranks in order, \<open>2 ^ s\<close> sets, shifts in range) the
  access does have an outcome; and an entry that is processed had one.
\<close>

theorem counters_step:
  "main_step s b st CHR ''I'' a = Inr st
   \<and> (c \<noteq> CHR ''I'' \<longrightarrow> decode s b a = Some (t, i) \<longrightarrow> i < length (cache st) \<longrightarrow>
        main_place (cache st ! i) t = Inr (set', oc) \<longrightarrow>
        main_step s b st c a =
          Inr (st\<lparr>cache := (cache st)[i := set'],
                  hits := hits st + (if oc = Hit then 1 else 0) + (if c = CHR ''M'' then 1 else 0),
                  misses := misses st + (if oc = Hit then 0 else 1),
                  evictions := evictions st + (if oc = MissWithEvict then 1 else 0)\<rparr>))
   \<and> (c \<noteq> CHR ''I'' \<longrightarrow> sets_inv assoc (cache st) \<longrightarrow> 1 \<le> assoc \<longrightarrow> length (cache st) = 2 ^ s \<longrightarrow>
        s \<le> 30 \<longrightarrow> s + b < 64 \<longrightarrow>
        (\<exists>t i set' oc. decode s b a = Some (t, i) \<and> i < length (cache st)
           \<and> main_place (cache st ! i) t = Inr (set', oc)))
   \<and> (c \<noteq> CHR ''I'' \<longrightarrow> (\<exists>st'. main_step s b st c a = Inr st') \<longrightarrow>
        (\<exists>t i set' oc. decode s b a = Some (t, i) \<and> i < length (cache st)
           \<and> main_place (cache st ! i) t = Inr (set', oc)))"
proof (intro conjI impI)
  show "main_step s b st CHR ''I'' a = Inr st"
    by (simp add: main_step_def)
next
  assume a: "c \<noteq> CHR ''I''" "decode s b a = Some (t, i)" "i < length (cache st)"
    "main_place (cache st ! i) t = Inr (set', oc)"
  then show "main_step s b st c a =
          Inr (st\<lparr>cache := (cache st)[i := set'],
                  hits := hits st + (if oc = Hit then 1 else 0) + (if c = CHR ''M'' then 1 else 0),
                  misses := misses st + (if oc = Hit then 0 else 1),
                  evictions := evictions st + (if oc = MissWithEvict then 1 else 0)\<rparr>)"
    by (cases oc) (simp_all add: main_step_def tally_def Let_def)
next
  assume a: "c \<noteq> CHR ''I''" "sets_inv assoc (cache st)" "1 \<le> assoc" "length (cache st) = 2 ^ s"
    "s \<le> 30" "s + b < 64"
  from decode_defined [OF a(5,6), of a] obtain t i where d: "decode s b a = Some (t, i)" "i < 2 ^ s"
    by blast
  with a(2,4) have "rank_inv (cache st ! i)" "length (cache st ! i) = assoc"
    by (simp_all add: sets_inv_def)
  moreover from this a(3) have "cache st ! i \<noteq> []" by auto
  ultimately obtain set' oc where "main_place (cache st ! i) t = Inr (set', oc)"
    using main_place_total [of "cache st ! i" t] by blast
  with d a(4) show "\<exists>t i set' oc. decode s b a = Some (t, i) \<and> i < length (cache st)
           \<and> main_place (cache st ! i) t = Inr (set', oc)" by auto
next
  assume a: "c \<noteq> CHR ''I''" "\<exists>st'. main_step s b st c a = Inr st'"
  then show "\<exists>t i set' oc. decode s b a = Some (t, i) \<and> i < length (cache st)
           \<and> main_place (cache st ! i) t = Inr (set', oc)"
    by (auto simp: main_step_def Let_def split: option.splits if_splits sum.splits)
qed

theorem counters_step_witness:
  "main_step 0 0 \<lparr>cache = [[\<lparr>tag = 5, valid = 1, lru_cntr = 1\<rparr>, \<lparr>tag = 7, valid = 1, lru_cntr = 0\<rparr>]],
                   hits = 3, misses = 2, evictions = 0\<rparr> CHR ''M'' 9
     = Inr \<lparr>cache = [[\<lparr>tag = 9, valid = 1, lru_cntr = 0\<rparr>, \<lparr>tag = 7, valid = 1, lru_cntr = 1\<rparr>]],
            hits = 4, misses = 3, evictions = 1\<rparr>
   \<and> main_step 0 0 \<lparr>cache = [[\<lparr>tag = 5, valid = 1, lru_cntr = 1\<rparr>, \<lparr>tag = 7, valid = 1, lru_cntr = 0\<rparr>]],
                   hits = 3, misses = 2, evictions = 0\<rparr> CHR ''L'' 7
     = Inr \<lparr>cache = [[\<lparr>tag = 5, valid = 1, lru_cntr = 1\<rparr>, \<lparr>tag = 7, valid = 1, lru_cntr = 0\<rparr>]],
            hits = 4, misses = 2, evictions = 0\<rparr>
   \<and> main_step 0 0 \<lparr>cache = [[\<lparr>tag = 5, valid = 1, lru_cntr = 1\<rparr>, \<lparr>tag = 7, valid = 1, lru_cntr = 0\<rparr>]],
                   hits = 3, misses = 2, evictions = 0\<rparr> CHR ''I'' 9
     = Inr \<lparr>cache = [[\<lparr>tag = 5, valid = 1, lru_cntr = 1\<rparr>, \<lparr>tag = 7, valid = 1, lru_cntr = 0\<rparr>]],
            hits = 3, misses = 2, evictions = 0\<rparr>"
proof -
  let ?cset = "[\<lparr>tag = 5, valid = 1, lru_cntr = 1\<rparr>, \<lparr>tag = 7, valid = 1, lru_cntr = 0\<rparr>]"
  let ?st = "\<lparr>cache = [?cset], hits = 3, misses = 2, evictions = 0\<rparr>"
  have d9: "decode 0 0 9 = Some (9, 0)" and d7: "decode 0 0 7 = Some (7, 0)"
    by (simp_all add: decode_def)
  have p9: "main_place (cache ?st ! 0) 9
      = Inr ([\<lparr>tag = 9, valid = 1, lru_cntr = 0\<rparr>, \<lparr>tag = 7, valid = 1, lru_cntr = 1\<rparr>], MissWithEvict)"
    by code_simp
  have p7: "main_place (cache ?st ! 0) 7 = Inr (?cset, Hit)"
    by code_simp
  have l: "0 < length (cache ?st)" by simp
  have m: "CHR ''M'' \<noteq> CHR ''I''" "CHR ''L'' \<noteq> CHR ''I''" by simp_all
  from counters_step [of 0 0 ?st 9 "CHR ''M''" 9 0
        "[\<lparr>tag = 9, valid = 1, lru_cntr = 0\<rparr>, \<lparr>tag = 7, valid = 1, lru_cntr = 1\<rparr>]" MissWithEvict]
    m(1) d9 l p9
  have 1: "main_step 0 0 ?st CHR ''M'' 9
     = Inr \<lparr>cache = [[\<lparr>tag = 9, valid = 1, lru_cntr = 0\<rparr>, \<lparr>tag = 7, valid = 1, lru_cntr = 1\<rparr>]],
            hits = 4, misses = 3, evictions = 1\<rparr>"
    by simp
  from counters_step [of 0 0 ?st 7 "CHR ''L''" 7 0 ?cset Hit] m(2) d7 l p7
  have 2: "main_step 0 0 ?st CHR ''L'' 7 = Inr \<lparr>cache = [?cset], hits = 4, misses = 2, evictions = 0\<rparr>"
    by simp
  from counters_step [of 0 0 ?st 9]
  have 3: "main_step 0 0 ?st CHR ''I'' 9 = Inr ?st"
    by simp
  from 1 2 3 show ?thesis by simp
qed

subsection \<open>The assertion within the range of the counter\<close>

text \<open>
  Within the range of the counter the assertion holds: for associativities up to 32768
  no replay from the initial state ends in the failed assertion; in every state a replay reaches, for every set and every tag,
  when the lookup comes to its eviction branch (no line matched, the scan for an empty
  line ran to its end) the maximum counter it found is exactly \<open>E - 1\<close>; and for a
  well-formed configuration with at least one line per set every replay runs to its end.
\<close>

theorem assertion_holds_in_range:
  assumes "assoc \<le> 32768"
  shows "(\<forall>tr. main_loop s b (main_init junk s assoc) tr \<noteq> Inl AssertionFailed)
       \<and> (\<forall>tr st cset t m p.
             main_loop s b (main_init junk s assoc) tr = Inr st \<longrightarrow> cset \<in> set (cache st) \<longrightarrow>
             hit_scan cset t = None \<longrightarrow> slot_scan cset 0 (- 1) None = Inr (m, p) \<longrightarrow>
             sint m = int assoc - 1 \<and> cache_lookup cset t \<noteq> Inl AssertionFailed)
       \<and> (1 \<le> assoc \<longrightarrow> s \<le> 30 \<longrightarrow> s + b < 64 \<longrightarrow>
             (\<forall>tr. \<exists>st. main_loop s b (main_init junk s assoc) tr = Inr st))"
proof (intro conjI allI impI)
  fix tr
  show "main_loop s b (main_init junk s assoc) tr \<noteq> Inl AssertionFailed"
    using sets_inv_main_init [OF assms] by (rule main_loop_assert)
next
  fix tr st cset t m p
  assume a: "main_loop s b (main_init junk s assoc) tr = Inr st" "cset \<in> set (cache st)"
    "hit_scan cset t = None" "slot_scan cset 0 (- 1) None = Inr (m, p)"
  from main_loop_sets_inv [OF a(1) sets_inv_main_init [OF assms]] a(2)
  have r: "rank_inv cset" "length cset = assoc" by (simp_all add: sets_inv_def)
  from eviction_max [OF r(1) a(3,4)] r(2) show "sint m = int assoc - 1" by simp
  from cache_lookup_assert [OF r(1)] show "cache_lookup cset t \<noteq> Inl AssertionFailed" .
next
  fix tr
  assume c: "1 \<le> assoc" "s \<le> 30" "s + b < 64"
  have "sets_inv assoc (cache (main_init junk s assoc))"
    by (rule sets_inv_main_init [OF assms])
  from main_loop_total [OF this c(1) length_cache_main_init c(2,3)]
  show "\<exists>st. main_loop s b (main_init junk s assoc) tr = Inr st" .
qed

theorem assertion_holds_in_range_witness:
  "main_loop 0 0 (main_init zero_junk 0 2) [Entry CHR ''L'' 0, Entry CHR ''L'' 1, Entry CHR ''L'' 2]
     = Inr \<lparr>cache = [[\<lparr>tag = 2, valid = 1, lru_cntr = 0\<rparr>, \<lparr>tag = 1, valid = 1, lru_cntr = 1\<rparr>]],
            hits = 0, misses = 3, evictions = 1\<rparr>
   \<and> hit_scan [\<lparr>tag = 2, valid = 1, lru_cntr = 0\<rparr>, \<lparr>tag = 1, valid = 1, lru_cntr = 1\<rparr>] 3 = None
   \<and> slot_scan [\<lparr>tag = 2, valid = 1, lru_cntr = 0\<rparr>, \<lparr>tag = 1, valid = 1, lru_cntr = 1\<rparr>] 0 (- 1) None
       = Inr (1, Some 1)
   \<and> sint (1 :: 16 word) = int 2 - 1
   \<and> cache_lookup [\<lparr>tag = 2, valid = 1, lru_cntr = 0\<rparr>, \<lparr>tag = 1, valid = 1, lru_cntr = 1\<rparr>] 3
       \<noteq> Inl AssertionFailed"
proof -
  let ?cset = "[\<lparr>tag = 2, valid = 1, lru_cntr = 0\<rparr>, \<lparr>tag = 1, valid = 1, lru_cntr = 1\<rparr>]"
  have r: "main_loop 0 0 (main_init zero_junk 0 2)
             [Entry CHR ''L'' 0, Entry CHR ''L'' 1, Entry CHR ''L'' 2]
     = Inr \<lparr>cache = [?cset], hits = 0, misses = 3, evictions = 1\<rparr>"
    by code_simp
  have h: "hit_scan ?cset 3 = None"
    by simp
  have sl: "slot_scan ?cset 0 (- 1) None = Inr (1, Some 1)"
    by simp
  have a: "(2 :: nat) \<le> 32768" by simp
  from assertion_holds_in_range [OF a, of 0 0 zero_junk] r h sl
  have "sint (1 :: 16 word) = int 2 - 1 \<and> cache_lookup ?cset 3 \<noteq> Inl AssertionFailed"
    by (metis list.set_intros(1) sim.select_convs(1))
  with r h sl show ?thesis by blast
qed

subsection \<open>Associativities beyond the range of the counter\<close>

text \<open>
  Misses on different tags fill the lines of an empty set in index order, whatever the
  counters hold; once more than 32768 lines are full, the next miss on a new tag finds a
  maximum counter of at most 32767 and fails the assertion.
\<close>

lemma accesses_append:
  "accesses cset (xs @ ys) = (case accesses cset xs of Inl e \<Rightarrow> Inl e | Inr S \<Rightarrow> accesses S ys)"
  by (induction xs arbitrary: cset) (auto split: sum.splits)

lemma filled_init_set: "filled T 0 (init_set junk E)"
  by (simp add: filled_def init_set_def)

lemma filled_no_hit:
  assumes "filled T k cset" "\<forall>j < k. T j \<noteq> t"
  shows "\<not> (\<exists>l \<in> set cset. valid l \<noteq> 0 \<and> tag l = t)"
proof
  assume "\<exists>l \<in> set cset. valid l \<noteq> 0 \<and> tag l = t"
  then obtain j where j: "j < length cset" "valid (cset ! j) \<noteq> 0" "tag (cset ! j) = t"
    by (auto simp: in_set_conv_nth)
  with assms(1) have "j < k \<and> tag (cset ! j) = T j"
    unfolding filled_def by (metis (full_types))
  with assms(2) j(3) show False by auto
qed

lemma filled_step:
  assumes "filled T k cset" "k < length cset" "\<forall>j < k. T j \<noteq> t" "t = T k"
  shows "\<exists>set'. main_place cset t = Inr (set', MissNoEvict) \<and> length set' = length cset
           \<and> filled T (Suc k) set'"
proof -
  from assms(1,2) have inv: "valid (cset ! k) = 0" by (simp add: filled_def)
  with assms(2) have ex: "\<exists>l \<in> set cset. valid l = 0" by (metis nth_mem)
  from main_place_fill [OF filled_no_hit [OF assms(1,3)] ex]
  obtain k' where k': "k' < length cset" "valid (cset ! k') = 0" "\<forall>j < k'. valid (cset ! j) \<noteq> 0"
    "main_place cset t =
               Inr ((update_lru_cntr cset (lru_cntr (cset ! k')))
                      [k' := (update_lru_cntr cset (lru_cntr (cset ! k')) ! k')\<lparr>valid := 1, tag := t\<rparr>],
                    MissNoEvict)"
    by blast
  have "\<not> k' < k" using assms(1) k'(1,2) by (auto simp: filled_def)
  moreover have "\<not> k < k'" using k'(3) inv by auto
  ultimately have e: "k' = k" by simp
  let ?u = "update_lru_cntr cset (lru_cntr (cset ! k))"
  have "filled T (Suc k) (?u[k := (?u ! k)\<lparr>valid := 1, tag := t\<rparr>])"
    using assms(1,2,4) unfolding filled_def
    by (auto simp: nth_list_update less_Suc_eq)
  with k'(4) e show ?thesis by simp
qed

lemma filled_run:
  assumes "inj_on T {0..<E}"
  shows "k \<le> E \<Longrightarrow> \<exists>S. accesses (init_set junk E) (map T [0..<k]) = Inr S \<and> length S = E \<and> filled T k S"
proof (induction k)
  case 0
  show ?case by (simp add: filled_init_set)
next
  case (Suc k)
  then obtain S where S: "accesses (init_set junk E) (map T [0..<k]) = Inr S" "length S = E" "filled T k S"
    by auto
  have "\<forall>j < k. T j \<noteq> T k"
  proof (intro allI impI)
    fix j
    assume "j < k"
    with Suc.prems have "j \<in> {0..<E}" "k \<in> {0..<E}" "j \<noteq> k" by simp_all
    with assms show "T j \<noteq> T k" by (metis inj_on_eq_iff)
  qed
  from filled_step [OF S(3) _ this refl] Suc.prems S(2)
  obtain set' where "main_place S (T k) = Inr (set', MissNoEvict)" "length set' = E" "filled T (Suc k) set'"
    by auto
  with S(1) show ?case by (simp add: accesses_append)
qed

lemma slot_scan_overflow:
  assumes "filled T (length S) S" "32768 < length S" "\<forall>j < length S. T j \<noteq> t"
  shows "main_place S t = Inl AssertionFailed"
proof -
  from filled_no_hit [OF assms(1,3)] have h: "hit_scan S t = None" by (simp add: hit_scan_None)
  from assms(1) have "\<forall>l \<in> set S. valid l \<noteq> 0" by (auto simp: filled_def in_set_conv_nth)
  from slot_scan_Inr [OF this, of 0 "- 1" None] obtain m p where r: "slot_scan S 0 (- 1) None = Inr (m, p)"
    by blast
  have "sint m < 32768" using sint_lt [of m] by simp
  with assms(2) have "sint m \<noteq> int (length S) - 1" by simp
  with h r show ?thesis by (simp add: main_place_def cache_lookup_def)
qed

lemma overflow_run:
  assumes "inj_on T {0..E}" "32768 < E"
  shows "accesses (init_set junk E) (map T [0..<Suc E]) = Inl AssertionFailed"
proof -
  from assms(1) have "inj_on T {0..<E}" by (rule inj_on_subset) auto
  from filled_run [OF this order_refl, of junk]
  obtain S where S: "accesses (init_set junk E) (map T [0..<E]) = Inr S" "length S = E" "filled T E S"
    by blast
  have "\<forall>j < E. T j \<noteq> T E"
  proof (intro allI impI)
    fix j
    assume "j < E"
    then have "j \<in> {0..E}" "E \<in> {0..E}" "j \<noteq> E" by simp_all
    with assms(1) show "T j \<noteq> T E" by (metis inj_on_eq_iff)
  qed
  with slot_scan_overflow [of T S "T E"] S(2,3) assms(2)
  have "main_place S (T E) = Inl AssertionFailed" by simp
  with S(1) show ?thesis by (simp add: accesses_append)
qed

lemma unat_word_of_nat64: "x < 2 ^ 64 \<Longrightarrow> unat (word_of_nat x :: 64 word) = x"
proof -
  have l: "LENGTH(64) = 64" by simp
  show "x < 2 ^ 64 \<Longrightarrow> unat (word_of_nat x :: 64 word) = x"
    by (rule of_nat_inverse [OF refl]) (simp only: l)
qed

lemma inj_on_word_of_nat:
  assumes "n < 2 ^ 64"
  shows "inj_on (word_of_nat :: nat \<Rightarrow> 64 word) {0..n}"
proof (rule inj_onI)
  fix x y
  assume a: "x \<in> {0..n}" "y \<in> {0..n}" "(word_of_nat x :: 64 word) = word_of_nat y"
  from a(1,2) have "x \<le> n" "y \<le> n" by simp_all
  from this(1) assms have "x < 2 ^ 64" by (rule le_less_trans)
  moreover from \<open>y \<le> n\<close> assms have "y < 2 ^ 64" by (rule le_less_trans)
  ultimately have "x < 2 ^ 64" "y < 2 ^ 64" .
  then have "unat (word_of_nat x :: 64 word) = x" "unat (word_of_nat y :: 64 word) = y"
    by (simp_all only: unat_word_of_nat64)
  with a(3) show "x = y" by metis
qed

lemma cyclic_first: "cyclic T E (Suc E) = map T [0..<Suc E]"
  unfolding cyclic_def by (rule map_cong) auto

lemma overflow_cyclic:
  assumes "32768 < E" "E < 2 ^ 64"
  shows "accesses (init_set junk E) (cyclic word_of_nat E (Suc E)) = Inl AssertionFailed"
  unfolding cyclic_first using inj_on_word_of_nat [OF assms(2)] assms(1) by (rule overflow_run)

lemma decode_0_0: "decode 0 0 a = Some (a, 0)"
  by (simp add: decode_def)

lemma main_loop_single_set:
  "cache st = [cset] \<Longrightarrow> accesses cset ts = Inl e \<Longrightarrow>
     main_loop 0 0 st (map (Entry CHR ''L'') ts) = Inl e"
proof (induction ts arbitrary: st cset)
  case Nil
  then show ?case by simp
next
  case (Cons t ts)
  show ?case
  proof (cases "main_place cset t")
    case (Inl e')
    with Cons.prems show ?thesis by (simp add: main_step_def decode_0_0)
  next
    case (Inr r)
    obtain set' oc where r: "r = (set', oc)" by (cases r)
    with Inr Cons.prems(2) have a: "accesses set' ts = Inl e" by simp
    have "\<exists>st'. main_step 0 0 st CHR ''L'' t = Inr st' \<and> cache st' = [set']"
      using Inr r Cons.prems(1) by (simp add: main_step_def decode_0_0 Let_def)
    then obtain st' where st': "main_step 0 0 st CHR ''L'' t = Inr st'" "cache st' = [set']" by blast
    from Cons.IH [OF st'(2) a] st'(1) show ?thesis by simp
  qed
qed

lemma overflow_main_loop:
  assumes "32768 < E" "E < 2 ^ 64"
  shows "main_loop 0 0 (main_init junk 0 E) (distinct_loads (Suc E)) = Inl AssertionFailed"
proof -
  have c: "cache (main_init junk 0 E) = [init_set (junk 0) E]"
    by (simp add: main_init_def)
  have d: "distinct_loads (Suc E) = map (Entry CHR ''L'') (map word_of_nat [0..<Suc E])"
    by (simp only: distinct_loads_def map_map comp_def)
  from overflow_cyclic [OF assms, of "junk 0"] show ?thesis
    unfolding d cyclic_first by (rule main_loop_single_set [OF c])
qed

text \<open>
  Claim C6: in the eviction branch the maximum rank found is always \<open>E - 1\<close>, so the
  assertion never fails in a reachable state. The code run with \<^verbatim>\<open>-s 0 -E 32769 -b 0\<close>
  on a trace of 32770 loads from the addresses \<open>0, ..., 32769\<close>: the first 32769 loads
  fill the set, the last one reaches the eviction branch, where \<^verbatim>\<open>max_lru_cntr\<close>, a
  \<^verbatim>\<open>short\<close>, cannot be 32768, and the run ends in the failed
  \<^verbatim>\<open>assert(max_lru_cntr == assoc-1)\<close>.
\<close>

theorem assertion_overflow:
  "main_loop 0 0 (main_init zero_junk 0 32769) (distinct_loads 32770) = Inl AssertionFailed"
  using overflow_main_loop [of 32769 zero_junk] by simp

subsection \<open>Cyclic accesses to one set\<close>

text \<open>
  A miss keeps the set in step with its recency list: on a set with an empty line the
  tag is put in front of the list, on a full set the last tag of the list is the one
  evicted.
\<close>

lemma lru_rel_init_set: "E \<le> 32768 \<Longrightarrow> lru_rel (init_set junk E) []"
proof -
  assume "E \<le> 32768"
  then have r: "rank_inv (init_set junk E)" by (rule rank_inv_init_set)
  have "valid (init_set junk E ! i) = 0" if "i < E" for i
    using that by (simp add: init_set_def)
  with rank_inv_bounds [OF r] r show ?thesis by (simp add: lru_rel_def)
qed

lemma lru_rel_valid:
  assumes "lru_rel cset lst" "i < length cset" "valid (cset ! i) \<noteq> 0"
  shows "nat (rank (cset ! i)) < length lst \<and> lst ! nat (rank (cset ! i)) = tag (cset ! i)
           \<and> 0 \<le> rank (cset ! i) \<and> rank (cset ! i) < int (length lst)"
proof -
  from assms(1) have r: "rank_inv cset" by (simp add: lru_rel_def)
  from assms have "rank (cset ! i) < int (length lst) \<and> lst ! nat (rank (cset ! i)) = tag (cset ! i)"
    unfolding lru_rel_def by metis
  with rank_inv_bounds [OF r assms(2)] show ?thesis by auto
qed

lemma lru_rel_invalid:
  assumes "lru_rel cset lst" "i < length cset" "valid (cset ! i) = 0"
  shows "int (length lst) \<le> rank (cset ! i)"
  using assms unfolding lru_rel_def by metis

lemma lru_rel_no_hit:
  assumes "lru_rel cset lst" "t \<notin> set lst"
  shows "\<not> (\<exists>l \<in> set cset. valid l \<noteq> 0 \<and> tag l = t)"
proof
  assume "\<exists>l \<in> set cset. valid l \<noteq> 0 \<and> tag l = t"
  then obtain i where i: "i < length cset" "valid (cset ! i) \<noteq> 0" "tag (cset ! i) = t"
    by (auto simp: in_set_conv_nth)
  from lru_rel_valid [OF assms(1) i(1,2)] i(3) have "t \<in> set lst" by (metis nth_mem)
  with assms(2) show False ..
qed

lemma rank_list_update:
  "i < length u \<Longrightarrow> rank l = rank (u ! k) \<Longrightarrow> rank (u[k := l] ! i) = rank (u ! i)"
  by (cases "i = k") simp_all

lemma lru_rel_fill:
  assumes "lru_rel cset lst" "t \<notin> set lst" "length lst < length cset"
  shows "\<exists>set'. main_place cset t = Inr (set', MissNoEvict) \<and> length set' = length cset
           \<and> lru_rel set' (t # lst)"
proof -
  from assms(1) have ri: "rank_inv cset" by (simp add: lru_rel_def)
  have "0 \<le> int (length cset) - 1" "int (length cset) - 1 < int (length cset)"
    using assms(3) by auto
  from rank_inv_surj [OF ri this] obtain w where w: "w < length cset"
    "rank (cset ! w) = int (length cset) - 1" by blast
  have "valid (cset ! w) = 0"
  proof (rule ccontr)
    assume "valid (cset ! w) \<noteq> 0"
    from lru_rel_valid [OF assms(1) w(1) this] w(2) assms(3) show False by linarith
  qed
  with w(1) have ex: "\<exists>l \<in> set cset. valid l = 0" by (metis nth_mem)
  from main_place_fill [OF lru_rel_no_hit [OF assms(1,2)] ex]
  obtain k where k: "k < length cset" "valid (cset ! k) = 0"
    "main_place cset t =
               Inr ((update_lru_cntr cset (lru_cntr (cset ! k)))
                      [k := (update_lru_cntr cset (lru_cntr (cset ! k)) ! k)\<lparr>valid := 1, tag := t\<rparr>],
                    MissNoEvict)"
    by blast
  let ?u = "update_lru_cntr cset (lru_cntr (cset ! k))"
  let ?s = "?u[k := (?u ! k)\<lparr>valid := 1, tag := t\<rparr>]"
  from main_place_rank_inv [OF k(3) ri] have ri': "rank_inv ?s" and len: "length ?s = length cset"
    by simp_all
  from lru_rel_invalid [OF assms(1) k(1,2)] have r0: "int (length lst) \<le> rank (cset ! k)" .
  have rk: "rank (?s ! i) = promote (rank (cset ! k)) (rank (cset ! i))" if "i < length cset" for i
  proof -
    have "rank (?s ! i) = rank (?u ! i)"
      using that by (intro rank_list_update) (simp_all add: rank_def)
    with rank_update_lru_cntr [OF that, of "lru_cntr (cset ! k)"] show ?thesis
      by (simp add: rank_def)
  qed
  have step: "if valid (?s ! i) \<noteq> 0
        then rank (?s ! i) < int (length (t # lst)) \<and> (t # lst) ! nat (rank (?s ! i)) = tag (?s ! i)
        else int (length (t # lst)) \<le> rank (?s ! i)" if i: "i < length cset" for i
  proof (cases "i = k")
    case True
    with k(1) rk [OF i] show ?thesis by (simp add: promote_def)
  next
    case False
    then have same: "valid (?s ! i) = valid (cset ! i)" "tag (?s ! i) = tag (cset ! i)"
      using i by simp_all
    show ?thesis
    proof (cases "valid (cset ! i) \<noteq> 0")
      case True
      from lru_rel_valid [OF assms(1) i True] r0
      have "rank (cset ! i) < rank (cset ! k)" "0 \<le> rank (cset ! i)"
        "nat (rank (cset ! i)) < length lst" "lst ! nat (rank (cset ! i)) = tag (cset ! i)"
        by simp_all
      with rk [OF i] same True show ?thesis
        by (simp add: promote_def nat_add_distrib)
    next
      case inv: False
      then have "valid (cset ! i) = 0" by simp
      from lru_rel_invalid [OF assms(1) i this] have a: "int (length lst) \<le> rank (cset ! i)" .
      from rank_inv_inj [OF ri i k(1)] False have "rank (cset ! i) \<noteq> rank (cset ! k)" by blast
      with a r0 rk [OF i] same inv show ?thesis
        by (simp add: promote_def)
    qed
  qed
  have "lru_rel ?s (t # lst)"
    unfolding lru_rel_def
  proof (intro conjI allI impI)
    show "rank_inv ?s" by (rule ri')
  next
    fix i
    assume "i < length ?s"
    then have "i < length cset" by (simp only: len)
    then show "if valid (?s ! i) \<noteq> 0
        then rank (?s ! i) < int (length (t # lst)) \<and> (t # lst) ! nat (rank (?s ! i)) = tag (?s ! i)
        else int (length (t # lst)) \<le> rank (?s ! i)" by (rule step)
  qed
  with k(3) len show ?thesis by blast
qed

lemma lru_rel_all_valid:
  assumes "lru_rel cset lst" "length lst = length cset"
  shows "\<forall>l \<in> set cset. valid l \<noteq> 0"
proof
  fix l
  assume "l \<in> set cset"
  then obtain i where i: "i < length cset" "l = cset ! i" by (auto simp: in_set_conv_nth)
  from assms(1) have ri: "rank_inv cset" by (simp add: lru_rel_def)
  show "valid l \<noteq> 0"
  proof
    assume "valid l = 0"
    with i have "valid (cset ! i) = 0" by simp
    from lru_rel_invalid [OF assms(1) i(1) this] rank_inv_bounds [OF ri i(1)] assms(2)
    show False by simp
  qed
qed

lemma lru_rel_evict:
  assumes "lru_rel cset lst" "t \<notin> set lst" "length lst = length cset" "cset \<noteq> []"
  shows "\<exists>set' v. v < length cset
           \<and> cache_lookup cset t = Inr (update_lru_cntr cset (lru_cntr (cset ! v)), Some v)
           \<and> tag (cset ! v) = last lst
           \<and> main_place cset t = Inr (set', MissWithEvict) \<and> length set' = length cset
           \<and> lru_rel set' (t # butlast lst)"
proof -
  from assms(1) have ri: "rank_inv cset" by (simp add: lru_rel_def)
  note av = lru_rel_all_valid [OF assms(1,3)]
  from cache_lookup_evict [OF lru_rel_no_hit [OF assms(1,2)] av ri assms(4)]
  obtain v where v: "v < length cset" "rank (cset ! v) = int (length cset) - 1"
    "cache_lookup cset t = Inr (update_lru_cntr cset (lru_cntr (cset ! v)), Some v)"
    by blast
  let ?u = "update_lru_cntr cset (lru_cntr (cset ! v))"
  let ?s = "?u[v := (?u ! v)\<lparr>tag := t\<rparr>]"
  from v(1) av have vv: "valid (cset ! v) \<noteq> 0" by simp
  with v(1,3) have mp: "main_place cset t = Inr (?s, MissWithEvict)"
    by (simp add: main_place_def)
  from main_place_rank_inv [OF mp ri] have ri': "rank_inv ?s" and len: "length ?s = length cset"
    by simp_all
  from assms(3,4) have ne: "lst \<noteq> []" by auto
  have "nat (int (length cset) - 1) = length lst - 1"
    using assms(3) by simp
  with lru_rel_valid [OF assms(1) v(1) vv] v(2)
  have "tag (cset ! v) = lst ! (length lst - 1)" by simp
  with last_conv_nth [OF ne] have ev: "tag (cset ! v) = last lst"
    by simp
  have rk: "rank (?s ! i) = promote (rank (cset ! v)) (rank (cset ! i))" if "i < length cset" for i
  proof -
    have "rank (?s ! i) = rank (?u ! i)"
      using that by (intro rank_list_update) (simp_all add: rank_def)
    with rank_update_lru_cntr [OF that, of "lru_cntr (cset ! v)"] show ?thesis
      by (simp add: rank_def)
  qed
  have step: "if valid (?s ! i) \<noteq> 0
        then rank (?s ! i) < int (length (t # butlast lst))
               \<and> (t # butlast lst) ! nat (rank (?s ! i)) = tag (?s ! i)
        else int (length (t # butlast lst)) \<le> rank (?s ! i)" if i: "i < length cset" for i
  proof (cases "i = v")
    case True
    with v(1) vv rk [OF i] show ?thesis by (simp add: promote_def)
  next
    case False
    then have same: "valid (?s ! i) = valid (cset ! i)" "tag (?s ! i) = tag (cset ! i)"
      using i by simp_all
    from i av have vi: "valid (cset ! i) \<noteq> 0" by simp
    from rank_inv_inj [OF ri i v(1)] False have "rank (cset ! i) \<noteq> rank (cset ! v)" by blast
    with rank_inv_bounds [OF ri i] v(2) have lt: "rank (cset ! i) < rank (cset ! v)" by simp
    from lru_rel_valid [OF assms(1) i vi]
    have a: "0 \<le> rank (cset ! i)" "lst ! nat (rank (cset ! i)) = tag (cset ! i)" by simp_all
    from lt v(2) assms(3) a(1) have "nat (rank (cset ! i)) < length (butlast lst)" by simp
    then have "butlast lst ! nat (rank (cset ! i)) = lst ! nat (rank (cset ! i))"
      by (rule nth_butlast)
    with a lt v(2) assms(3) rk [OF i] same vi show ?thesis
      by (simp add: promote_def nat_add_distrib)
  qed
  have "lru_rel ?s (t # butlast lst)"
    unfolding lru_rel_def
  proof (intro conjI allI impI)
    show "rank_inv ?s" by (rule ri')
  next
    fix i
    assume "i < length ?s"
    then have "i < length cset" by (simp only: len)
    then show "if valid (?s ! i) \<noteq> 0
        then rank (?s ! i) < int (length (t # butlast lst))
               \<and> (t # butlast lst) ! nat (rank (?s ! i)) = tag (?s ! i)
        else int (length (t # butlast lst)) \<le> rank (?s ! i)" by (rule step)
  qed
  with v(1,3) ev mp len show ?thesis by blast
qed

lemma lru_rel_tags:
  assumes "lru_rel cset lst" "length lst = length cset"
  shows "set (map tag cset) = set lst"
proof (intro equalityI subsetI)
  fix x
  assume "x \<in> set (map tag cset)"
  then obtain i where i: "i < length cset" "x = tag (cset ! i)" by (auto simp: in_set_conv_nth)
  from lru_rel_all_valid [OF assms] i(1) have "valid (cset ! i) \<noteq> 0" by simp
  from lru_rel_valid [OF assms(1) i(1) this] i(2) show "x \<in> set lst" by (metis nth_mem)
next
  fix x
  assume "x \<in> set lst"
  then obtain r where r: "r < length lst" "x = lst ! r" by (auto simp: in_set_conv_nth)
  from assms(1) have ri: "rank_inv cset" by (simp add: lru_rel_def)
  from r(1) assms(2) have "0 \<le> int r" "int r < int (length cset)" by simp_all
  from rank_inv_surj [OF ri this] obtain i where i: "i < length cset" "rank (cset ! i) = int r" by blast
  from lru_rel_all_valid [OF assms] i(1) have "valid (cset ! i) \<noteq> 0" by simp
  from lru_rel_valid [OF assms(1) i(1) this] i(2) r(2) have "x = tag (cset ! i)" by simp
  with i(1) show "x \<in> set (map tag cset)" by (metis length_map nth_map nth_mem)
qed

lemma cyclic_Suc: "cyclic T E (Suc n) = cyclic T E n @ [T (n mod Suc E)]"
  by (simp add: cyclic_def)

lemma length_recent [simp]: "length (recent T E n) = min n E"
  by (simp add: recent_def)

lemma recent_Suc_fill:
  assumes "n < E"
  shows "recent T E (Suc n) = T (n mod Suc E) # recent T E n"
proof -
  from assms have "min (Suc n) E = Suc n" "min n E = n" by simp_all
  then show ?thesis
    unfolding recent_def by (simp only: map_upt_Suc) simp
qed

lemma recent_Suc_evict:
  assumes "E \<le> n" "1 \<le> E"
  shows "recent T E (Suc n) = T (n mod Suc E) # butlast (recent T E n)"
proof -
  from assms obtain E' where E': "E = Suc E'" by (cases E) simp_all
  from assms(1) have m: "min (Suc n) E = E" "min n E = E" by simp_all
  have a: "recent T E (Suc n) = map (\<lambda>i. T ((Suc n - Suc i) mod Suc E)) [0..<E]"
    by (simp only: recent_def m)
  have b: "recent T E n = map (\<lambda>i. T ((n - Suc i) mod Suc E)) [0..<E]"
    by (simp only: recent_def m)
  have c: "map f [0..<Suc E'] = f 0 # map (\<lambda>i. f (Suc i)) [0..<E']" for f :: "nat \<Rightarrow> 64 word"
    by (rule map_upt_Suc)
  have d: "butlast (map g [0..<Suc E']) = map g [0..<E']" for g :: "nat \<Rightarrow> 64 word"
    by simp
  show ?thesis
    unfolding a b unfolding E' unfolding d unfolding c by simp
qed

lemma cycle_distinct:
  assumes "i < n" "i < E"
  shows "(n - Suc i) mod Suc E \<noteq> n mod Suc E"
proof
  assume e: "(n - Suc i) mod Suc E = n mod Suc E"
  have "n - Suc i \<le> n" by simp
  from mod_eq_dvd_iff_nat [OF this, of "Suc E"] e have "Suc E dvd n - (n - Suc i)" by simp
  moreover from assms(1) have "n - (n - Suc i) = Suc i" by simp
  ultimately have "Suc E dvd Suc i" by simp
  then have "Suc E \<le> Suc i" by (rule dvd_imp_le) simp
  with assms(2) show False by simp
qed

lemma next_not_recent:
  assumes "inj_on T {0..E}"
  shows "T (n mod Suc E) \<notin> set (recent T E n)"
proof
  assume "T (n mod Suc E) \<in> set (recent T E n)"
  then obtain i where i: "i < min n E" "T ((n - Suc i) mod Suc E) = T (n mod Suc E)"
    by (auto simp: recent_def)
  have "(n - Suc i) mod Suc E \<in> {0..E}" "n mod Suc E \<in> {0..E}"
    by (simp_all add: less_Suc_eq_le [symmetric])
  with assms i(2) have "(n - Suc i) mod Suc E = n mod Suc E" by (metis inj_on_eq_iff)
  with cycle_distinct [of i n E] i(1) show False by simp
qed

lemma cyclic_run:
  assumes "1 \<le> E" "E \<le> 32768" "inj_on T {0..E}"
  shows "\<exists>S. accesses (init_set junk E) (cyclic T E n) = Inr S \<and> length S = E
           \<and> lru_rel S (recent T E n)"
proof (induction n)
  case 0
  from lru_rel_init_set [OF assms(2), of junk] show ?case
    by (simp add: cyclic_def recent_def)
next
  case (Suc n)
  then obtain S where S: "accesses (init_set junk E) (cyclic T E n) = Inr S" "length S = E"
    "lru_rel S (recent T E n)" by blast
  note nr = next_not_recent [OF assms(3), of n]
  show ?case
  proof (cases "n < E")
    case True
    with S(2) have "length (recent T E n) < length S" by simp
    from lru_rel_fill [OF S(3) nr this] obtain set' where
      "main_place S (T (n mod Suc E)) = Inr (set', MissNoEvict)" "length set' = length S"
      "lru_rel set' (T (n mod Suc E) # recent T E n)" by blast
    with S(1,2) True show ?thesis
      by (simp add: cyclic_Suc accesses_append recent_Suc_fill)
  next
    case False
    then have le: "E \<le> n" by simp
    with S(2) have l: "length (recent T E n) = length S" by simp
    from S(2) assms(1) have "S \<noteq> []" by auto
    from lru_rel_evict [OF S(3) nr l this] obtain set' where
      "main_place S (T (n mod Suc E)) = Inr (set', MissWithEvict)" "length set' = length S"
      "lru_rel set' (T (n mod Suc E) # butlast (recent T E n))" by blast
    with S(1,2) show ?thesis
      by (simp add: cyclic_Suc accesses_append recent_Suc_evict [OF le assms(1)])
  qed
qed

lemma last_recent:
  assumes "E \<le> n" "1 \<le> E"
  shows "last (recent T E n) = T ((n - E) mod Suc E)"
proof -
  from assms obtain E' where E': "E = Suc E'" by (cases E) simp_all
  from assms(1) have m: "min n E = E" by simp
  show ?thesis unfolding recent_def m unfolding E' by (simp add: last_map)
qed

lemma set_recent:
  assumes "E \<le> n"
  shows "set (recent T E n) = (\<lambda>i. T (i mod Suc E)) ` {n - E..<n}"
proof -
  from assms have m: "min n E = E" by simp
  have "(\<lambda>i. n - Suc i) ` {0..<E} = {n - E..<n}"
  proof (intro equalityI subsetI)
    fix x assume "x \<in> (\<lambda>i. n - Suc i) ` {0..<E}"
    with assms show "x \<in> {n - E..<n}" by auto
  next
    fix x assume x: "x \<in> {n - E..<n}"
    then have "x = n - Suc (n - Suc x)" "n - Suc x \<in> {0..<E}" using assms by auto
    then show "x \<in> (\<lambda>i. n - Suc i) ` {0..<E}" by (rule image_eqI)
  qed
  moreover have "(\<lambda>i. T ((n - Suc i) mod Suc E)) ` {0..<E}
      = (\<lambda>j. T (j mod Suc E)) ` ((\<lambda>i. n - Suc i) ` {0..<E})"
    by (simp only: image_image)
  ultimately have "(\<lambda>i. T ((n - Suc i) mod Suc E)) ` {0..<E} = (\<lambda>i. T (i mod Suc E)) ` {n - E..<n}"
    by simp
  then show ?thesis unfolding recent_def m by simp
qed

text \<open>
  Within the range of the counter the code is a least-recently-used cache under cyclic
  accesses: for associativities from 1 to 32768, let \<open>E + 1\<close> distinct tags
  \<open>T 0, ..., T E\<close> be accessed cyclically on a set that starts empty. After any number
  \<open>n \<ge> E\<close> of accesses the set is full and holds exactly the tags of the last \<open>E\<close>
  accesses; the next access misses with an eviction, and the line it replaces holds the
  tag of the access \<open>E\<close> steps back, the least recently accessed of the resident tags.
  This covers every access after the first full cycle (\<open>n \<ge> E + 1\<close>).
\<close>

theorem lru_thrash_in_range:
  assumes "1 \<le> E" and "E \<le> 32768" and "inj_on T {0..E}" and "E \<le> n"
  shows "\<exists>S S' v. accesses (init_set junk E) (cyclic T E n) = Inr S
           \<and> (\<forall>l \<in> set S. valid l \<noteq> 0)
           \<and> set (map tag S) = (\<lambda>i. T (i mod Suc E)) ` {n - E..<n}
           \<and> cache_lookup S (T (n mod Suc E)) = Inr (update_lru_cntr S (lru_cntr (S ! v)), Some v)
           \<and> v < E \<and> tag (S ! v) = T ((n - E) mod Suc E)
           \<and> main_place S (T (n mod Suc E)) = Inr (S', MissWithEvict)"
proof -
  from cyclic_run [OF assms(1-3), of junk n]
  obtain S where S: "accesses (init_set junk E) (cyclic T E n) = Inr S" "length S = E"
    "lru_rel S (recent T E n)" by blast
  from S(2) assms(4) have l: "length (recent T E n) = length S" by simp
  from S(2) assms(1) have ne: "S \<noteq> []" by auto
  from lru_rel_evict [OF S(3) next_not_recent [OF assms(3)] l ne]
  obtain S' v where v: "v < length S"
    "cache_lookup S (T (n mod Suc E)) = Inr (update_lru_cntr S (lru_cntr (S ! v)), Some v)"
    "tag (S ! v) = last (recent T E n)"
    "main_place S (T (n mod Suc E)) = Inr (S', MissWithEvict)" by blast
  from v(3) have "tag (S ! v) = T ((n - E) mod Suc E)"
    by (simp only: last_recent [OF assms(4,1)])
  moreover from lru_rel_tags [OF S(3) l]
  have "set (map tag S) = (\<lambda>i. T (i mod Suc E)) ` {n - E..<n}"
    by (simp only: set_recent [OF assms(4)])
  moreover note lru_rel_all_valid [OF S(3) l]
  ultimately show ?thesis using S(1,2) v(1,2,4) by blast
qed

theorem lru_thrash_in_range_witness:
  "accesses (init_set (zero_junk 0) 2) (cyclic word_of_nat 2 4)
     = Inr [\<lparr>tag = 2, valid = 1, lru_cntr = 1\<rparr>, \<lparr>tag = 0, valid = 1, lru_cntr = 0\<rparr>]
   \<and> main_place [\<lparr>tag = 2, valid = 1, lru_cntr = 1\<rparr>, \<lparr>tag = 0, valid = 1, lru_cntr = 0\<rparr>] 1
       = Inr ([\<lparr>tag = 1, valid = 1, lru_cntr = 0\<rparr>, \<lparr>tag = 0, valid = 1, lru_cntr = 1\<rparr>], MissWithEvict)
   \<and> (\<exists>S S' v. accesses (init_set (zero_junk 0) 2) (cyclic word_of_nat 2 4) = Inr S
           \<and> (\<forall>l \<in> set S. valid l \<noteq> 0)
           \<and> set (map tag S) = (\<lambda>i. word_of_nat (i mod Suc 2)) ` {4 - 2..<4}
           \<and> cache_lookup S (word_of_nat (4 mod Suc 2)) = Inr (update_lru_cntr S (lru_cntr (S ! v)), Some v)
           \<and> v < 2 \<and> tag (S ! v) = word_of_nat ((4 - 2) mod Suc 2)
           \<and> main_place S (word_of_nat (4 mod Suc 2)) = Inr (S', MissWithEvict))"
proof (intro conjI)
  show "accesses (init_set (zero_junk 0) 2) (cyclic word_of_nat 2 4)
     = Inr [\<lparr>tag = 2, valid = 1, lru_cntr = 1\<rparr>, \<lparr>tag = 0, valid = 1, lru_cntr = 0\<rparr>]"
    by code_simp
  show "main_place [\<lparr>tag = 2, valid = 1, lru_cntr = 1\<rparr>, \<lparr>tag = 0, valid = 1, lru_cntr = 0\<rparr>] 1
       = Inr ([\<lparr>tag = 1, valid = 1, lru_cntr = 0\<rparr>, \<lparr>tag = 0, valid = 1, lru_cntr = 1\<rparr>], MissWithEvict)"
    by code_simp
  have i: "inj_on (word_of_nat :: nat \<Rightarrow> 64 word) {0..2}"
    by (rule inj_on_word_of_nat) simp
  have a: "(1 :: nat) \<le> 2" "(2 :: nat) \<le> 32768" "(2 :: nat) \<le> 4" by simp_all
  show "\<exists>S S' v. accesses (init_set (zero_junk 0) 2) (cyclic word_of_nat 2 4) = Inr S
           \<and> (\<forall>l \<in> set S. valid l \<noteq> 0)
           \<and> set (map tag S) = (\<lambda>i. word_of_nat (i mod Suc 2)) ` {4 - 2..<4}
           \<and> cache_lookup S (word_of_nat (4 mod Suc 2)) = Inr (update_lru_cntr S (lru_cntr (S ! v)), Some v)
           \<and> v < 2 \<and> tag (S ! v) = word_of_nat ((4 - 2) mod Suc 2)
           \<and> main_place S (word_of_nat (4 mod Suc 2)) = Inr (S', MissWithEvict)"
    by (rule lru_thrash_in_range [OF a(1,2) i a(3)])
qed

text \<open>
  Claim C5: for any associativity \<open>E\<close>, when \<open>E + 1\<close> distinct tags are accessed
  cyclically on a set that starts empty, every access after the first cycle is a miss
  with the eviction of the least recently accessed tag. The code with \<open>E = 32769\<close> and
  the tags \<open>0, ..., 32769\<close>: the accesses of the first cycle already end in the failed
  assertion of \<^verbatim>\<open>cache_lookup\<close> (at the last of them, the first that has to evict), and
  no later access takes place.
\<close>

theorem lru_thrash_overflow:
  "accesses (init_set (zero_junk 0) 32769) (cyclic word_of_nat 32769 32770) = Inl AssertionFailed"
  using overflow_cyclic [of 32769 "zero_junk 0"] by simp

end
